theory Spec2Isabelle
  imports Main "HOL-Library.Product_Lexorder" "HOL-Library.List_Lexorder" "HOL-Library.Char_ord"
begin

section \<open>Data model shared by the three graph-search scripts\<close>

text \<open>
  The scripts \<^verbatim>\<open>BFS_Graph.py\<close>, \<^verbatim>\<open>DFS_Graph.py\<close> and \<^verbatim>\<open>AStar_Graph.py\<close> keep the map as
  a module-level dictionary \<^verbatim>\<open>graph\<close> from a city to its list of \<^verbatim>\<open>(neighbor, dist)\<close> pairs.
  A dictionary is finite and its keys are looked up with \<^verbatim>\<open>graph[current]\<close>, which raises
  \<^verbatim>\<open>KeyError\<close> on a missing key.  The dictionary is modelled as an association list read
  through \<open>map_of\<close>; distances and heuristic values are Python integers.  Indexing a list
  outside its bounds raises \<^verbatim>\<open>IndexError\<close>.
\<close>

datatype error = KeyError | IndexError

type_synonym 'a adjacency = "('a \<times> int) list"
type_synonym 'a graph = "('a \<times> 'a adjacency) list"

text \<open>
  \<^verbatim>\<open>graph = {city: [] for city in city_coords}\<close> followed by
  \<^verbatim>\<open>for c1, c2, dist in edges: graph[c1].append((c2, dist)); graph[c2].append((c1, dist))\<close>.
  Appending to \<^verbatim>\<open>graph[c]\<close> for a city that is no key raises \<^verbatim>\<open>KeyError\<close>.  The cities are the
  keys of the dictionary \<^verbatim>\<open>city_coords\<close>, so each occurs once (\<open>remdups\<close>).
\<close>

definition graph_append :: "'a graph \<Rightarrow> 'a \<Rightarrow> 'a \<times> int \<Rightarrow> error + 'a graph" where
  "graph_append G c e =
     (case map_of G c of
        None \<Rightarrow> Inl KeyError
      | Some adj \<Rightarrow> Inr (map (\<lambda>(k, v). if k = c then (k, v @ [e]) else (k, v)) G))"

fun add_edges :: "'a graph \<Rightarrow> ('a \<times> 'a \<times> int) list \<Rightarrow> error + 'a graph" where
  "add_edges G [] = Inr G"
| "add_edges G ((c1, c2, dist) # es) =
     (case graph_append G c1 (c2, dist) of
        Inl e \<Rightarrow> Inl e
      | Inr G1 \<Rightarrow>
          (case graph_append G1 c2 (c1, dist) of
             Inl e \<Rightarrow> Inl e
           | Inr G2 \<Rightarrow> add_edges G2 es))"

definition build_graph :: "'a list \<Rightarrow> ('a \<times> 'a \<times> int) list \<Rightarrow> error + 'a graph" where
  "build_graph cities edges = add_edges (map (\<lambda>city. (city, [])) (remdups cities)) edges"

section \<open>Breadth-first search (\<^verbatim>\<open>BFS_Graph.py\<close>)\<close>

text \<open>
  One entry of the trace \<^verbatim>\<open>steps\<close>.  All three scripts record \<^verbatim>\<open>'current'\<close>, \<^verbatim>\<open>'path'\<close> and
  \<^verbatim>\<open>'closed'\<close>; BFS and DFS add the names in \<^verbatim>\<open>'open'\<close>, A* adds the three costs.
\<close>

record 'a step =
  current :: 'a
  path :: "'a list"
  closed :: "'a set"

record 'a open_step = "'a step" +
  open_nodes :: "'a list"

record 'a astar_step = "'a step" +
  f_cost :: int
  g_cost :: int
  h_cost :: int

text \<open>
  The loop \<^verbatim>\<open>for neighbor, _ in neighbors\<close> of \<^verbatim>\<open>bfs\<close> and \<^verbatim>\<open>dfs\<close>: for each neighbour that
  is not closed, in order, \<^verbatim>\<open>(neighbor, path + [neighbor])\<close> is appended to the open list.  The
  closed set does not change during the loop, so the appended records are a filtered map.
\<close>

definition push_neighbors :: "'a list \<Rightarrow> 'a set \<Rightarrow> 'a adjacency \<Rightarrow> ('a \<times> 'a list) list" where
  "push_neighbors p closed_set neighbors =
     map (\<lambda>(neighbor, _). (neighbor, p @ [neighbor]))
       (filter (\<lambda>(neighbor, _). neighbor \<notin> closed_set) neighbors)"

text \<open>
  The \<^verbatim>\<open>while open_queue\<close> loop of \<^verbatim>\<open>bfs\<close>.  The state is the deque, the closed set and
  the trace; the result is \<^verbatim>\<open>(path, steps)\<close> with \<open>None\<close> for the sentinel \<^verbatim>\<open>None\<close>.
\<close>

function bfs_loop ::
  "('a::linorder) graph \<Rightarrow> 'a \<Rightarrow> ('a \<times> 'a list) list \<Rightarrow> 'a set \<Rightarrow> 'a open_step list
     \<Rightarrow> error + ('a list option \<times> 'a open_step list)" where
  "bfs_loop G goal [] closed_set steps = Inr (None, steps)"
| "bfs_loop G goal ((cur, p) # open_queue) closed_set steps =
     (if cur \<in> closed_set then bfs_loop G goal open_queue closed_set steps
      else
        let closed_set' = insert cur closed_set;
            steps' = steps @ [\<lparr>current = cur, path = p, closed = closed_set',
                               open_nodes = map fst open_queue\<rparr>]
        in if cur = goal then Inr (Some p, steps')
           else
             (case map_of G cur of
                None \<Rightarrow> Inl KeyError
              | Some adj \<Rightarrow>
                  bfs_loop G goal
                    (open_queue @ push_neighbors p closed_set' (sort_key fst adj))
                    closed_set' steps'))"
  by pat_completeness auto
termination
proof (relation "(\<lambda>(G, goal, q, cl, st). card (fst ` set G - cl)) <*mlex*>
                 measure (\<lambda>(G, goal, q, cl, st). length q)", goal_cases)
  case 1
  show ?case by (simp add: wf_mlex)
next
  case 2
  show ?case by (rule mlex_leq) simp_all
next
  case (3 G goal cur p open_queue closed_set steps x xa adj)
  have "cur \<in> fst ` set G - closed_set"
    using 3 by (auto dest!: map_of_SomeD intro: rev_image_eqI)
  then have "fst ` set G - insert cur closed_set \<subset> fst ` set G - closed_set"
    by auto
  then have "card (fst ` set G - insert cur closed_set) < card (fst ` set G - closed_set)"
    by (intro psubset_card_mono) simp_all
  then show ?case using 3 by (intro mlex_less) simp
qed

definition bfs :: "('a::linorder) graph \<Rightarrow> 'a \<Rightarrow> 'a \<Rightarrow> error + ('a list option \<times> 'a open_step list)" where
  "bfs G start goal = bfs_loop G goal [(start, [start])] {} []"

section \<open>Depth-first search (\<^verbatim>\<open>DFS_Graph.py\<close>)\<close>

text \<open>
  \<^verbatim>\<open>open_list\<close> is a Python list used as a stack: \<^verbatim>\<open>pop()\<close> takes the last element and
  \<^verbatim>\<open>append\<close> adds at the end.  \<^verbatim>\<open>sorted(..., reverse=True)\<close> is stable, which is the reverse
  of the stable ascending sort of the reversed list.
\<close>

definition sorted_reverse :: "('a::linorder) adjacency \<Rightarrow> 'a adjacency" where
  "sorted_reverse adj = rev (sort_key fst (rev adj))"

function dfs_loop ::
  "('a::linorder) graph \<Rightarrow> 'a \<Rightarrow> ('a \<times> 'a list) list \<Rightarrow> 'a set \<Rightarrow> 'a open_step list
     \<Rightarrow> error + ('a list option \<times> 'a open_step list)" where
  "dfs_loop G goal open_list closed_set steps =
     (if open_list = [] then Inr (None, steps)
      else
        let cur = fst (last open_list); p = snd (last open_list);
            open_list' = butlast open_list
        in if cur \<in> closed_set then dfs_loop G goal open_list' closed_set steps
           else
             let closed_set' = insert cur closed_set;
                 steps' = steps @ [\<lparr>current = cur, path = p, closed = closed_set',
                                    open_nodes = map fst open_list'\<rparr>]
             in if cur = goal then Inr (Some p, steps')
                else
                  (case map_of G cur of
                     None \<Rightarrow> Inl KeyError
                   | Some adj \<Rightarrow>
                       dfs_loop G goal
                         (open_list' @ push_neighbors p closed_set' (sorted_reverse adj))
                         closed_set' steps'))"
  by pat_completeness auto
termination
proof (relation "(\<lambda>(G, goal, q, cl, st). card (fst ` set G - cl)) <*mlex*>
                 measure (\<lambda>(G, goal, q, cl, st). length q)", goal_cases)
  case 1
  show ?case by (simp add: wf_mlex)
next
  case 2
  then show ?case by (intro mlex_leq) simp_all
next
  case (3 G goal open_list closed_set steps cur p open_list' closed_set' steps' adj)
  have "cur \<in> fst ` set G - closed_set"
    using 3 by (auto dest!: map_of_SomeD intro: rev_image_eqI)
  then have "fst ` set G - insert cur closed_set \<subset> fst ` set G - closed_set"
    by auto
  then have "card (fst ` set G - insert cur closed_set) < card (fst ` set G - closed_set)"
    by (intro psubset_card_mono) simp_all
  then show ?case using 3 by (intro mlex_less) simp
qed

definition dfs :: "('a::linorder) graph \<Rightarrow> 'a \<Rightarrow> 'a \<Rightarrow> error + ('a list option \<times> 'a open_step list)" where
  "dfs G start goal = dfs_loop G goal [(start, [start])] {} []"

section \<open>A* search (\<^verbatim>\<open>AStar_Graph.py\<close>)\<close>

text \<open>
  The heap holds tuples \<^verbatim>\<open>(f_cost, g_cost, node, path)\<close>.  \<^verbatim>\<open>heapq.heappop\<close> returns the least
  tuple in Python's tuple order, which is lexicographic on the components (and on the
  path, a list of names); two tuples that compare equal are equal values.  What the search
  computes therefore depends only on which tuples are in the heap, and the heap is modelled
  as the list of its items in push order, with \<open>heappop\<close> removing the least one.
\<close>

type_synonym 'a heap_item = "int \<times> int \<times> 'a \<times> 'a list"

definition heappush :: "'e list \<Rightarrow> 'e \<Rightarrow> 'e list" where
  "heappush heap item = heap @ [item]"

definition heappop :: "('e::linorder) list \<Rightarrow> 'e \<times> 'e list" where
  "heappop heap = (let m = Min (set heap) in (m, remove1 m heap))"

text \<open>
  The \<^verbatim>\<open>for neighbor, edge_cost in graph[current]\<close> loop: it updates \<^verbatim>\<open>g_costs\<close> and pushes on
  the heap; \<^verbatim>\<open>heuristic[neighbor]\<close> raises \<^verbatim>\<open>KeyError\<close> for a name without an entry.
\<close>

fun relax ::
  "('a \<rightharpoonup> int) \<Rightarrow> 'a set \<Rightarrow> int \<Rightarrow> 'a list \<Rightarrow> 'a adjacency
     \<Rightarrow> ('a \<rightharpoonup> int) \<times> 'a heap_item list \<Rightarrow> error + (('a \<rightharpoonup> int) \<times> 'a heap_item list)" where
  "relax heuristic closed_set g p [] (g_costs, open_heap) = Inr (g_costs, open_heap)"
| "relax heuristic closed_set g p ((neighbor, edge_cost) # rest) (g_costs, open_heap) =
     (if neighbor \<notin> closed_set then
        let new_g = g + edge_cost in
        if (case g_costs neighbor of None \<Rightarrow> True | Some old_g \<Rightarrow> new_g < old_g) then
          (case heuristic neighbor of
             None \<Rightarrow> Inl KeyError
           | Some h \<Rightarrow>
               relax heuristic closed_set g p rest
                 (g_costs(neighbor \<mapsto> new_g),
                  heappush open_heap (new_g + h, new_g, neighbor, p @ [neighbor])))
        else relax heuristic closed_set g p rest (g_costs, open_heap)
      else relax heuristic closed_set g p rest (g_costs, open_heap))"

function astar_loop ::
  "('a::linorder) graph \<Rightarrow> ('a \<rightharpoonup> int) \<Rightarrow> 'a \<Rightarrow> 'a heap_item list \<Rightarrow> 'a set \<Rightarrow> ('a \<rightharpoonup> int)
     \<Rightarrow> 'a astar_step list \<Rightarrow> error + ('a list option \<times> int \<times> 'a astar_step list)" where
  "astar_loop G heuristic goal open_heap closed_set g_costs steps =
     (if open_heap = [] then Inr (None, 0, steps)
      else
        (case heappop open_heap of
           ((f, g, cur, p), open_heap') \<Rightarrow>
             if cur \<in> closed_set then
               astar_loop G heuristic goal open_heap' closed_set g_costs steps
             else
               let closed_set' = insert cur closed_set in
               (case heuristic cur of
                  None \<Rightarrow> Inl KeyError
                | Some h \<Rightarrow>
                    let steps' = steps @ [\<lparr>current = cur, path = p, closed = closed_set',
                                            f_cost = f, g_cost = g, h_cost = h\<rparr>]
                    in if cur = goal then Inr (Some p, g, steps')
                       else
                         (case map_of G cur of
                            None \<Rightarrow> Inl KeyError
                          | Some adj \<Rightarrow>
                              (case relax heuristic closed_set' g p adj (g_costs, open_heap') of
                                 Inl e \<Rightarrow> Inl e
                               | Inr (g_costs', open_heap'') \<Rightarrow>
                                   astar_loop G heuristic goal open_heap'' closed_set'
                                     g_costs' steps')))))"
  by pat_completeness auto
termination
proof (relation "(\<lambda>(G, h, goal, q, cl, gc, st). card (fst ` set G - cl)) <*mlex*>
                 measure (\<lambda>(G, h, goal, q, cl, gc, st). length q)", goal_cases)
  case 1
  show ?case by (simp add: wf_mlex)
next
  case (2 G heuristic goal open_heap closed_set g_costs steps x1 x2 f r1 g r2 cur p)
  then have "x2 = remove1 (Min (set open_heap)) open_heap"
    by (simp add: heappop_def Let_def)
  moreover have "Min (set open_heap) \<in> set open_heap"
    using 2 by (intro Min_in) simp_all
  ultimately have "length x2 < length open_heap"
    using 2 by (simp add: length_remove1)
  then show ?case by (intro mlex_leq) simp_all
next
  case (3 G heuristic goal open_heap closed_set g_costs steps x1 x2 f r1 g r2 cur p
          closed_set' h steps' adj r g_costs' open_heap'')
  have "cur \<in> fst ` set G - closed_set"
    using 3 by (auto dest!: map_of_SomeD intro: rev_image_eqI)
  then have "fst ` set G - insert cur closed_set \<subset> fst ` set G - closed_set"
    by auto
  then have "card (fst ` set G - insert cur closed_set) < card (fst ` set G - closed_set)"
    by (intro psubset_card_mono) simp_all
  then show ?case using 3 by (intro mlex_less) simp
qed

definition astar ::
  "('a::linorder) graph \<Rightarrow> ('a \<rightharpoonup> int) \<Rightarrow> 'a \<Rightarrow> 'a
     \<Rightarrow> error + ('a list option \<times> int \<times> 'a astar_step list)" where
  "astar G heuristic start goal =
     (case heuristic start of
        None \<Rightarrow> Inl KeyError
      | Some h \<Rightarrow> astar_loop G heuristic goal [(h, 0, start, [start])] {} [start \<mapsto> 0] [])"

section \<open>Interval dynamic programming (\<^verbatim>\<open>Q_(2.a).py\<close>)\<close>

definition bind_err :: "error + 'b \<Rightarrow> ('b \<Rightarrow> error + 'c) \<Rightarrow> error + 'c" where
  "bind_err m f = (case m of Inl e \<Rightarrow> Inl e | Inr x \<Rightarrow> f x)"

definition getitem :: "'b list \<Rightarrow> nat \<Rightarrow> error + 'b" where
  "getitem xs i = (if i < length xs then Inr (xs ! i) else Inl IndexError)"

definition getitem2 :: "'b list list \<Rightarrow> nat \<Rightarrow> nat \<Rightarrow> error + 'b" where
  "getitem2 dp i j = bind_err (getitem dp i) (\<lambda>row. getitem row j)"

definition setitem2 :: "'b list list \<Rightarrow> nat \<Rightarrow> nat \<Rightarrow> 'b \<Rightarrow> error + 'b list list" where
  "setitem2 dp i j v =
     bind_err (getitem dp i)
       (\<lambda>row. if j < length row then Inr (dp[i := row[j := v]]) else Inl IndexError)"

text \<open>
  The innermost loop \<^verbatim>\<open>for k in range(left + 1, right)\<close>, run over the list of its
  values of \<^verbatim>\<open>k\<close>.  The rows of \<^verbatim>\<open>dp\<close> are separate lists, so the table is a list of
  lists updated at one cell.  The \<^verbatim>\<open>print\<close> calls produce output only and are left out.
\<close>

fun split_loop :: "int list \<Rightarrow> nat \<Rightarrow> nat \<Rightarrow> nat list \<Rightarrow> int list list \<Rightarrow> error + int list list" where
  "split_loop arr left right [] dp = Inr dp"
| "split_loop arr left right (k # ks) dp =
     bind_err (getitem2 dp left k) (\<lambda>a.
     bind_err (getitem2 dp k right) (\<lambda>b.
     bind_err (getitem arr left) (\<lambda>x.
     bind_err (getitem arr k) (\<lambda>y.
     bind_err (getitem arr right) (\<lambda>z.
       let points = a + b + x * y * z in
       bind_err (getitem2 dp left right) (\<lambda>c.
       bind_err (setitem2 dp left right (max c points))
         (split_loop arr left right ks)))))))"

text \<open>\<^verbatim>\<open>for left in range(0, n - length)\<close> with \<^verbatim>\<open>right = left + length\<close>.\<close>

fun left_loop :: "int list \<Rightarrow> nat \<Rightarrow> nat list \<Rightarrow> int list list \<Rightarrow> error + int list list" where
  "left_loop arr len [] dp = Inr dp"
| "left_loop arr len (left # ls) dp =
     (let right = left + len in
      bind_err (split_loop arr left right [left + 1..<right] dp) (left_loop arr len ls))"

text \<open>\<^verbatim>\<open>for length in range(2, n)\<close>.\<close>

fun length_loop :: "int list \<Rightarrow> nat \<Rightarrow> nat list \<Rightarrow> int list list \<Rightarrow> error + int list list" where
  "length_loop arr n [] dp = Inr dp"
| "length_loop arr n (len # lens) dp =
     bind_err (left_loop arr len [0..<n - len] dp) (length_loop arr n lens)"

definition strategic_tile_shatter :: "int list \<Rightarrow> error + int" where
  "strategic_tile_shatter tile_multipliers =
     (let arr = [1] @ tile_multipliers @ [1];
          n = length arr;
          dp = replicate n (replicate n 0)
      in bind_err (length_loop arr n [2..<n] dp) (\<lambda>dp'. getitem2 dp' 0 (n - 1)))"

text \<open>
  The reference recurrence, written from its statement: the score of an interval with no
  interior point is 0, and otherwise the greatest, over the interior split points \<open>k\<close>, of
  \<open>score left k + score k right + arr[left] * arr[k] * arr[right]\<close>.
\<close>

function score :: "int list \<Rightarrow> nat \<Rightarrow> nat \<Rightarrow> int" where
  "score arr left right =
     (if right - left < 2 then 0
      else Max (set (map (\<lambda>k. score arr left k + score arr k right
                               + arr ! left * arr ! k * arr ! right)
                         [left + 1..<right])))"
  by pat_completeness auto
termination
  by (relation "measure (\<lambda>(arr, left, right). right - left)") auto

section \<open>Paths, costs and well-formed inputs\<close>

text \<open>The adjacency list of a node; a node that is no key has no outgoing edge.\<close>

definition adjacent :: "'a graph \<Rightarrow> 'a \<Rightarrow> 'a adjacency" where
  "adjacent G u = (case map_of G u of None \<Rightarrow> [] | Some adj \<Rightarrow> adj)"

text \<open>
  \<open>route G p ws\<close>: the node list \<open>p\<close> is non-empty, every node of \<open>p\<close> is followed by one of
  its neighbours in \<open>G\<close>, and \<open>ws\<close> lists the weights of the edges taken, in order.
\<close>

fun route :: "'a graph \<Rightarrow> 'a list \<Rightarrow> int list \<Rightarrow> bool" where
  "route G [] ws = False"
| "route G [u] ws = (ws = [])"
| "route G (u # v # p) [] = False"
| "route G (u # v # p) (w # ws) = ((v, w) \<in> set (adjacent G u) \<and> route G (v # p) ws)"

text \<open>\<open>valid_path G p\<close>: consecutive nodes of the non-empty list \<open>p\<close> are adjacent in \<open>G\<close>.\<close>

fun valid_path :: "'a graph \<Rightarrow> 'a list \<Rightarrow> bool" where
  "valid_path G [] = False"
| "valid_path G [u] = True"
| "valid_path G (u # v # p) = (v \<in> fst ` set (adjacent G u) \<and> valid_path G (v # p))"

definition path_between :: "'a graph \<Rightarrow> 'a \<Rightarrow> 'a \<Rightarrow> 'a list \<Rightarrow> bool" where
  "path_between G start goal p = (valid_path G p \<and> hd p = start \<and> last p = goal)"

text \<open>
  The construction of \<^verbatim>\<open>graph\<close> raises \<^verbatim>\<open>KeyError\<close> for an edge whose endpoint is no city,
  so every neighbour stored in a constructed graph is itself a key.
\<close>

definition graph_closed :: "'a graph \<Rightarrow> bool" where
  "graph_closed G = (\<forall>(u, adj) \<in> set G. \<forall>(v, w) \<in> set adj. v \<in> fst ` set G)"

definition nonneg_costs :: "'a graph \<Rightarrow> bool" where
  "nonneg_costs G = (\<forall>(u, adj) \<in> set G. \<forall>(v, w) \<in> set adj. 0 \<le> w)"

definition has_heuristic :: "'a graph \<Rightarrow> ('a \<rightharpoonup> int) \<Rightarrow> bool" where
  "has_heuristic G heuristic = (\<forall>(u, adj) \<in> set G. heuristic u \<noteq> None)"

text \<open>
  A heuristic table is admissible for \<open>goal\<close> when no entry exceeds the cost of any route
  from its node to \<open>goal\<close>; it is consistent when along every edge it drops by no more than
  the weight of the edge.
\<close>

definition admissible :: "'a graph \<Rightarrow> ('a \<rightharpoonup> int) \<Rightarrow> 'a \<Rightarrow> bool" where
  "admissible G heuristic goal =
     (\<forall>p ws h. route G p ws \<and> last p = goal \<and> heuristic (hd p) = Some h \<longrightarrow> h \<le> sum_list ws)"

definition consistent :: "'a graph \<Rightarrow> ('a \<rightharpoonup> int) \<Rightarrow> bool" where
  "consistent G heuristic =
     (\<forall>(u, adj) \<in> set G. \<forall>(v, w) \<in> set adj.
        case (heuristic u, heuristic v) of (Some hu, Some hv) \<Rightarrow> hu \<le> w + hv | _ \<Rightarrow> True)"

section \<open>The data of the scripts\<close>

text \<open>
  The three search scripts share one map: the keys of \<^verbatim>\<open>city_coords\<close>, the list \<^verbatim>\<open>edges\<close> and,
  in \<^verbatim>\<open>AStar_Graph.py\<close>, the table \<^verbatim>\<open>heuristic\<close>.  \<open>poland_graph\<close> is the dictionary \<^verbatim>\<open>graph\<close>
  that the construction loop produces from them.
\<close>

definition poland_cities :: "string list" where
  "poland_cities =
     [''Glogow'', ''Leszno'', ''Poznan'', ''Bydgoszcz'', ''Wroclaw'', ''Opole'', ''Kalisz'',
      ''Konin'', ''Wloclawek'', ''Plock'', ''Lodz'', ''Czestochowa'', ''Katowice'', ''Krakow'',
      ''Kielce'', ''Radom'', ''Warsaw'']"

definition poland_edges :: "(string \<times> string \<times> int) list" where
  "poland_edges =
     [(''Glogow'', ''Leszno'', 45), (''Glogow'', ''Wroclaw'', 140), (''Leszno'', ''Poznan'', 90),
      (''Leszno'', ''Wroclaw'', 100), (''Leszno'', ''Kalisz'', 140), (''Poznan'', ''Bydgoszcz'', 140),
      (''Poznan'', ''Konin'', 130), (''Bydgoszcz'', ''Wloclawek'', 110), (''Bydgoszcz'', ''Konin'', 120),
      (''Wloclawek'', ''Plock'', 55), (''Konin'', ''Lodz'', 120), (''Kalisz'', ''Lodz'', 120),
      (''Kalisz'', ''Czestochowa'', 160), (''Wroclaw'', ''Opole'', 100), (''Opole'', ''Czestochowa'', 118),
      (''Czestochowa'', ''Katowice'', 80), (''Czestochowa'', ''Lodz'', 128), (''Katowice'', ''Krakow'', 85),
      (''Lodz'', ''Warsaw'', 150), (''Lodz'', ''Radom'', 165), (''Lodz'', ''Katowice'', 280),
      (''Plock'', ''Warsaw'', 130), (''Warsaw'', ''Radom'', 105), (''Radom'', ''Kielce'', 82),
      (''Kielce'', ''Krakow'', 120)]"

definition poland_heuristic :: "string \<rightharpoonup> int" where
  "poland_heuristic =
     map_of [(''Glogow'', 200), (''Leszno'', 160), (''Poznan'', 108), (''Bydgoszcz'', 90),
             (''Wroclaw'', 180), (''Opole'', 170), (''Kalisz'', 128), (''Konin'', 96),
             (''Wloclawek'', 44), (''Plock'', 0), (''Lodz'', 118), (''Czestochowa'', 150),
             (''Katowice'', 180), (''Krakow'', 190), (''Kielce'', 160), (''Radom'', 130),
             (''Warsaw'', 95)]"

definition poland_graph :: "string graph" where
  "poland_graph =
     [(''Glogow'', [(''Leszno'', 45), (''Wroclaw'', 140)]),
      (''Leszno'', [(''Glogow'', 45), (''Poznan'', 90), (''Wroclaw'', 100), (''Kalisz'', 140)]),
      (''Poznan'', [(''Leszno'', 90), (''Bydgoszcz'', 140), (''Konin'', 130)]),
      (''Bydgoszcz'', [(''Poznan'', 140), (''Wloclawek'', 110), (''Konin'', 120)]),
      (''Wroclaw'', [(''Glogow'', 140), (''Leszno'', 100), (''Opole'', 100)]),
      (''Opole'', [(''Wroclaw'', 100), (''Czestochowa'', 118)]),
      (''Kalisz'', [(''Leszno'', 140), (''Lodz'', 120), (''Czestochowa'', 160)]),
      (''Konin'', [(''Poznan'', 130), (''Bydgoszcz'', 120), (''Lodz'', 120)]),
      (''Wloclawek'', [(''Bydgoszcz'', 110), (''Plock'', 55)]),
      (''Plock'', [(''Wloclawek'', 55), (''Warsaw'', 130)]),
      (''Lodz'', [(''Konin'', 120), (''Kalisz'', 120), (''Czestochowa'', 128), (''Warsaw'', 150),
                  (''Radom'', 165), (''Katowice'', 280)]),
      (''Czestochowa'', [(''Kalisz'', 160), (''Opole'', 118), (''Katowice'', 80), (''Lodz'', 128)]),
      (''Katowice'', [(''Czestochowa'', 80), (''Krakow'', 85), (''Lodz'', 280)]),
      (''Krakow'', [(''Katowice'', 85), (''Kielce'', 120)]),
      (''Kielce'', [(''Radom'', 82), (''Krakow'', 120)]),
      (''Radom'', [(''Lodz'', 165), (''Warsaw'', 105), (''Kielce'', 82)]),
      (''Warsaw'', [(''Lodz'', 150), (''Plock'', 130), (''Radom'', 105)])]"

text \<open>
  A small undirected map used to exercise A*: the direct road from \<open>S\<close> to \<open>C\<close> costs 3, the
  detour through \<open>A\<close> costs 2.  The table \<open>detour_heuristic\<close> rates \<open>A\<close> at 11, its true distance
  to \<open>G\<close>, and every other node at 0.
\<close>

definition detour_graph :: "string graph" where
  "detour_graph =
     [(''S'', [(''A'', 1), (''C'', 3)]),
      (''A'', [(''S'', 1), (''C'', 1)]),
      (''C'', [(''A'', 1), (''S'', 3), (''G'', 10)]),
      (''G'', [(''C'', 10)])]"

definition detour_heuristic :: "string \<rightharpoonup> int" where
  "detour_heuristic = map_of [(''S'', 0), (''A'', 11), (''C'', 0), (''G'', 0)]"

definition detour_distance :: "string \<rightharpoonup> int" where
  "detour_distance = map_of [(''S'', 12), (''A'', 11), (''C'', 10), (''G'', 0)]"

text \<open>The table with the same entries as \<open>heuristic\<close>, all set to 0.\<close>

definition zero_table :: "('a \<rightharpoonup> int) \<Rightarrow> ('a \<rightharpoonup> int)" where
  "zero_table heuristic = (\<lambda>n. case heuristic n of None \<Rightarrow> None | Some h \<Rightarrow> Some 0)"

section \<open>Auxiliary notions for the proofs\<close>

text \<open>
  The notions below are used only in the proofs.  \<open>bfs_step\<close>, \<open>dfs_step\<close> and \<open>astar_step\<close>
  name the trace entry that an iteration appends.  \<open>bfs_inv\<close> and \<open>astar_inv\<close> are the loop
  invariants behind the two optimality results: every open record carries a path from
  \<^verbatim>\<open>start\<close> to its node, every closed node was closed with a best path, and every neighbour of
  a closed node is closed or still has an open record that is good enough.  \<open>tracked\<close> says
  that \<^verbatim>\<open>g_costs\<close> only holds costs of records that are still in the heap.  \<open>filled\<close> is the
  invariant of the table \<^verbatim>\<open>dp\<close>: the cells of the intervals already visited hold the value of
  the recurrence, all other cells hold 0.
\<close>

definition dfs_step :: "'a \<Rightarrow> 'a list \<Rightarrow> 'a set \<Rightarrow> ('a \<times> 'a list) list \<Rightarrow> 'a open_step" where
  "dfs_step cur p cl q = \<lparr>current = cur, path = p, closed = insert cur cl, open_nodes = map fst q\<rparr>"

definition bfs_step :: "'a \<Rightarrow> 'a list \<Rightarrow> 'a set \<Rightarrow> ('a \<times> 'a list) list \<Rightarrow> 'a open_step" where
  "bfs_step cur p cl q = \<lparr>current = cur, path = p, closed = insert cur cl, open_nodes = map fst q\<rparr>"

definition bfs_inv :: "'a graph \<Rightarrow> 'a \<Rightarrow> ('a \<times> 'a list) list \<Rightarrow> 'a set \<Rightarrow> 'a open_step list \<Rightarrow> bool" where
  "bfs_inv G start q cl st =
     ((\<forall>e\<in>set q. path_between G start (fst e) (snd e)) \<and>
      sorted (map (length \<circ> snd) q) \<and>
      (\<forall>e\<in>set q. length (snd e) \<le> Suc (length (snd (hd q)))) \<and>
      cl = current ` set st \<and>
      (start \<in> cl \<or> (start, [start]) \<in> set q) \<and>
      (\<forall>s\<in>set st. \<forall>Q. path_between G start (current s) Q \<longrightarrow> length (path s) \<le> length Q) \<and>
      (\<forall>s\<in>set st. \<forall>n\<in>fst ` set (adjacent G (current s)). n \<in> cl \<or> (n, path s @ [n]) \<in> set q))"

definition astar_step :: "int \<Rightarrow> int \<Rightarrow> 'a \<Rightarrow> 'a list \<Rightarrow> int \<Rightarrow> 'a set \<Rightarrow> 'a astar_step" where
  "astar_step f g cur p h cl =
     \<lparr>current = cur, path = p, closed = insert cur cl, f_cost = f, g_cost = g, h_cost = h\<rparr>"

definition tracked :: "'a set \<Rightarrow> ('a \<rightharpoonup> int) \<Rightarrow> 'a heap_item list \<Rightarrow> bool" where
  "tracked cl gc H = (\<forall>n x. gc n = Some x \<and> n \<notin> cl \<longrightarrow> (\<exists>f p. (f, x, n, p) \<in> set H))"

definition costed_route :: "'a graph \<Rightarrow> 'a \<Rightarrow> 'a \<Rightarrow> 'a list \<Rightarrow> int \<Rightarrow> bool" where
  "costed_route G start n p g = (\<exists>ws. route G p ws \<and> sum_list ws = g \<and> hd p = start \<and> last p = n)"

definition item_ok :: "'a graph \<Rightarrow> 'a \<Rightarrow> 'a heap_item \<Rightarrow> bool" where
  "item_ok G start e = (case e of (f, g, n, p) \<Rightarrow> costed_route G start n p g)"

definition item_f :: "('a \<rightharpoonup> int) \<Rightarrow> 'a heap_item \<Rightarrow> bool" where
  "item_f h e = (case e of (f, g, n, p) \<Rightarrow> h n = Some (f - g))"

definition astar_inv ::
  "'a graph \<Rightarrow> ('a \<rightharpoonup> int) \<Rightarrow> 'a \<Rightarrow> 'a heap_item list \<Rightarrow> 'a set \<Rightarrow> ('a \<rightharpoonup> int) \<Rightarrow> 'a astar_step list \<Rightarrow> bool" where
  "astar_inv G h start H cl gc st =
     ((\<forall>e\<in>set H. item_ok G start e \<and> item_f h e) \<and>
      cl = current ` set st \<and>
      (\<forall>s\<in>set st. \<forall>Q ws. route G Q ws \<and> hd Q = start \<and> last Q = current s \<longrightarrow> g_cost s \<le> sum_list ws) \<and>
      tracked cl gc H \<and>
      (\<forall>s\<in>set st. \<forall>e\<in>set (adjacent G (current s)).
          fst e \<in> cl \<or> (\<exists>f g p. (f, g, fst e, p) \<in> set H \<and> g \<le> g_cost s + snd e)) \<and>
      (start \<in> cl \<or> (\<exists>f g p. (f, g, start, p) \<in> set H \<and> g \<le> 0)))"

definition square :: "nat \<Rightarrow> 'b list list \<Rightarrow> bool" where
  "square n dp = (length dp = n \<and> (\<forall>i<n. length (dp ! i) = n))"

definition set_cell :: "'b list list \<Rightarrow> nat \<Rightarrow> nat \<Rightarrow> 'b \<Rightarrow> 'b list list" where
  "set_cell dp i j v = dp[i := (dp ! i)[j := v]]"

definition points_at :: "int list \<Rightarrow> int list list \<Rightarrow> nat \<Rightarrow> nat \<Rightarrow> nat \<Rightarrow> int" where
  "points_at arr dp left right k = dp ! left ! k + dp ! k ! right + arr ! left * arr ! k * arr ! right"

definition filled :: "int list \<Rightarrow> nat \<Rightarrow> nat \<Rightarrow> nat \<Rightarrow> int list list \<Rightarrow> bool" where
  "filled arr n len L dp =
     (square n dp \<and>
      (\<forall>l<n. \<forall>r<n. dp ! l ! r =
         (if r - l < len \<or> (r - l = len \<and> l < L) then score arr l r else 0)))"

declare dfs_loop.simps [simp del]
declare astar_loop.simps [simp del]

section \<open>Lemmas about paths and the three loops\<close>

lemma valid_path_snoc:
  "p \<noteq> [] \<Longrightarrow> valid_path G (p @ [n]) = (valid_path G p \<and> n \<in> fst ` set (adjacent G (last p)))"
  by (induction G p rule: valid_path.induct) auto

lemma route_length: "route G p ws \<Longrightarrow> length p = Suc (length ws)"
  by (induction G p ws rule: route.induct) auto

lemma route_snoc:
  "p \<noteq> [] \<Longrightarrow> route G (p @ [n]) (ws @ [w]) = (route G p ws \<and> (n, w) \<in> set (adjacent G (last p)))"
proof (induction p arbitrary: ws)
  case Nil
  then show ?case by simp
next
  case (Cons u p)
  show ?case
  proof (cases p)
    case Nil
    then show ?thesis by (cases ws) auto
  next
    case (Cons v q)
    with Cons.IH show ?thesis by (cases ws) (auto dest: route_length)
  qed
qed

lemma valid_path_nonempty: "valid_path G p \<Longrightarrow> p \<noteq> []"
  by auto

lemma route_valid_path: "route G p ws \<Longrightarrow> valid_path G p"
  by (induction G p ws rule: route.induct) (auto intro: rev_image_eqI)

lemma valid_path_route: "valid_path G p \<Longrightarrow> \<exists>ws. route G p ws"
proof (induction G p rule: valid_path.induct)
  case (3 G u v p)
  then obtain ws where "route G (v # p) ws" by auto
  moreover from 3 obtain w where "(v, w) \<in> set (adjacent G u)" by auto
  ultimately have "route G (u # v # p) (w # ws)" by simp
  then show ?case by blast
qed auto

lemma path_between_single: "path_between G s s [s]"
  by (simp add: path_between_def)

lemma path_between_snoc:
  "path_between G s u p \<Longrightarrow> n \<in> fst ` set (adjacent G u) \<Longrightarrow> path_between G s n (p @ [n])"
  unfolding path_between_def using valid_path_nonempty[of G p]
  by (auto simp: valid_path_snoc)

lemma path_between_butlast:
  assumes "path_between G s v (p @ [v])" "p \<noteq> []"
  shows "path_between G s (last p) p \<and> v \<in> fst ` set (adjacent G (last p))"
  using assms unfolding path_between_def by (auto simp: valid_path_snoc)

lemma adjacent_key:
  assumes "n \<in> fst ` set (adjacent G u)"
  shows "u \<in> fst ` set G"
proof (cases "map_of G u")
  case None
  with assms show ?thesis by (simp add: adjacent_def)
next
  case (Some adj)
  then have "(u, adj) \<in> set G" by (rule map_of_SomeD)
  then show ?thesis by (auto intro: rev_image_eqI)
qed

lemma graph_closed_adjacent:
  assumes "graph_closed G" "(n, w) \<in> set (adjacent G u)"
  shows "n \<in> fst ` set G"
proof (cases "map_of G u")
  case None
  with assms show ?thesis by (simp add: adjacent_def)
next
  case (Some adj)
  then have "(u, adj) \<in> set G" by (rule map_of_SomeD)
  with assms Some show ?thesis by (fastforce simp: graph_closed_def adjacent_def)
qed

lemma map_of_adjacent: "map_of G u = Some adj \<Longrightarrow> adjacent G u = adj"
  by (simp add: adjacent_def)

lemma frontier:
  assumes "path_between G start v Q" "v \<notin> cl"
    and "start \<in> cl \<union> opn"
    and "\<forall>c\<in>cl. \<forall>n\<in>fst ` set (adjacent G c). n \<in> cl \<union> opn"
  shows "\<exists>n\<in>opn. n \<notin> cl"
  using assms(1,2)
proof (induction Q arbitrary: v rule: rev_induct)
  case Nil
  then show ?case by (simp add: path_between_def)
next
  case (snoc x Q)
  then have xv: "x = v" by (simp add: path_between_def)
  show ?case
  proof (cases "Q = []")
    case True
    with snoc.prems have "v = start" by (auto simp: path_between_def)
    with snoc assms(3) show ?thesis by auto
  next
    case False
    with snoc xv have pb: "path_between G start (last Q) Q" and adj: "v \<in> fst ` set (adjacent G (last Q))"
      using path_between_butlast[of G start v Q] by auto
    show ?thesis
    proof (cases "last Q \<in> cl")
      case True
      with adj assms(4) snoc.prems show ?thesis by blast
    next
      case False
      with snoc.IH[OF pb] show ?thesis by blast
    qed
  qed
qed

lemma set_push_neighbors:
  "set (push_neighbors p cl adj) = {(n, p @ [n]) | n. n \<in> fst ` set adj \<and> n \<notin> cl}"
  by (force simp: push_neighbors_def image_iff)

lemma set_sorted_reverse: "set (sorted_reverse adj) = set adj"
  by (simp add: sorted_reverse_def)

lemma dfs_loop_empty: "dfs_loop G goal [] cl st = Inr (None, st)"
  by (simp add: dfs_loop.simps)

lemma dfs_loop_closed:
  "cur \<in> cl \<Longrightarrow> dfs_loop G goal (q @ [(cur, p)]) cl st = dfs_loop G goal q cl st"
  by (subst dfs_loop.simps) simp

lemma dfs_loop_goal:
  "goal \<notin> cl \<Longrightarrow> dfs_loop G goal (q @ [(goal, p)]) cl st = Inr (Some p, st @ [dfs_step goal p cl q])"
  by (subst dfs_loop.simps) (simp add: dfs_step_def)

lemma dfs_loop_keyerror:
  "cur \<notin> cl \<Longrightarrow> cur \<noteq> goal \<Longrightarrow> map_of G cur = None \<Longrightarrow>
   dfs_loop G goal (q @ [(cur, p)]) cl st = Inl KeyError"
  by (subst dfs_loop.simps) simp

lemma dfs_loop_expand:
  "cur \<notin> cl \<Longrightarrow> cur \<noteq> goal \<Longrightarrow> map_of G cur = Some adj \<Longrightarrow>
   dfs_loop G goal (q @ [(cur, p)]) cl st =
   dfs_loop G goal (q @ push_neighbors p (insert cur cl) (sorted_reverse adj)) (insert cur cl)
     (st @ [dfs_step cur p cl q])"
  by (subst dfs_loop.simps) (simp add: dfs_step_def Let_def)

lemma dfs_loop_induct [case_names Empty Closed Goal KeyError Expand]:
  assumes "\<And>cl st. P [] cl st"
    and "\<And>q cur p cl st. cur \<in> cl \<Longrightarrow> P q cl st \<Longrightarrow> P (q @ [(cur, p)]) cl st"
    and "\<And>q p cl st. goal \<notin> cl \<Longrightarrow> P (q @ [(goal, p)]) cl st"
    and "\<And>q cur p cl st. cur \<notin> cl \<Longrightarrow> cur \<noteq> goal \<Longrightarrow> map_of G cur = None \<Longrightarrow>
           P (q @ [(cur, p)]) cl st"
    and "\<And>q cur p cl st adj. cur \<notin> cl \<Longrightarrow> cur \<noteq> goal \<Longrightarrow> map_of G cur = Some adj \<Longrightarrow>
           P (q @ push_neighbors p (insert cur cl) (sorted_reverse adj)) (insert cur cl)
             (st @ [dfs_step cur p cl q]) \<Longrightarrow>
           P (q @ [(cur, p)]) cl st"
  shows "P q cl st"
  using assms
proof (induction G goal q cl st rule: dfs_loop.induct)
  case (1 G goal q cl st)
  note hyps = "1.prems"
  show ?case
  proof (cases "q = []")
    case True
    then show ?thesis using hyps(1)[of cl st] by simp
  next
    case False
    then obtain q' cur p where q: "q = q' @ [(cur, p)]"
      by (metis rev_exhaust surj_pair)
    have l: "fst (last q) = cur" "snd (last q) = p" "butlast q = q'"
      using q by simp_all
    show ?thesis
    proof (cases "cur \<in> cl")
      case True
      have "P (butlast q) cl st"
        by (rule "1.IH"(1)[OF False refl refl refl _ hyps]) (simp add: l True)
      then have "P q' cl st" by (simp only: l)
      then have "P (q' @ [(cur, p)]) cl st" by (rule hyps(2)[OF True])
      then show ?thesis by (simp only: q)
    next
      case ncl: False
      show ?thesis
      proof (cases "cur = goal")
        case True
        have "P (q' @ [(goal, p)]) cl st" using ncl True by (intro hyps(3)) simp
        then show ?thesis by (simp only: q True)
      next
        case ng: False
        show ?thesis
        proof (cases "map_of G cur")
          case None
          have "P (q' @ [(cur, p)]) cl st" by (rule hyps(4)[OF ncl ng None])
          then show ?thesis by (simp only: q)
        next
          case (Some adj)
          have "P (butlast q @ push_neighbors (snd (last q)) (insert (fst (last q)) cl) (sorted_reverse adj))
                  (insert (fst (last q)) cl)
                  (st @ [\<lparr>current = fst (last q), path = snd (last q),
                           closed = insert (fst (last q)) cl, open_nodes = map fst (butlast q)\<rparr>])"
            by (rule "1.IH"(2)[OF False refl refl refl _ refl refl _ _ hyps])
               (simp_all only: l ncl ng Some not_False_eq_True)
          then have "P (q' @ push_neighbors p (insert cur cl) (sorted_reverse adj)) (insert cur cl)
             (st @ [dfs_step cur p cl q'])"
            by (simp only: l dfs_step_def)
          then have "P (q' @ [(cur, p)]) cl st" by (rule hyps(5)[OF ncl ng Some])
          then show ?thesis by (simp only: q)
        qed
      qed
    qed
  qed
qed

lemma key_lookup: "u \<in> fst ` set G \<Longrightarrow> map_of G u \<noteq> None"
  by (simp add: map_of_eq_None_iff)

lemma pushed_path_between:
  assumes "path_between G start cur p" "map_of G cur = Some adj" "set adj' = set adj"
    and "e \<in> set (push_neighbors p cl adj')"
  shows "path_between G start (fst e) (snd e)"
proof -
  from assms(3,4) obtain n where n: "e = (n, p @ [n])" "n \<in> fst ` set adj"
    by (auto simp: set_push_neighbors)
  with assms(2) have "n \<in> fst ` set (adjacent G cur)" by (simp add: map_of_adjacent)
  with assms(1) n show ?thesis by (simp add: path_between_snoc)
qed

lemma pushed_keys:
  assumes "graph_closed G" "map_of G cur = Some adj" "set adj' = set adj"
    and "e \<in> set (push_neighbors p cl adj')"
  shows "fst e \<in> fst ` set G"
proof -
  from assms(3,4) obtain n w where n: "e = (n, p @ [n])" "(n, w) \<in> set adj"
    by (auto simp: set_push_neighbors)
  with assms(2) have "(n, w) \<in> set (adjacent G cur)" by (simp add: map_of_adjacent)
  with assms(1) n show ?thesis by (simp add: graph_closed_adjacent)
qed

lemma dfs_loop_valid:
  assumes "\<forall>e\<in>set q. path_between G start (fst e) (snd e)"
    and "dfs_loop G goal q cl st = Inr (Some P, st')"
  shows "path_between G start goal P"
  using assms
proof (induction q cl st rule: dfs_loop_induct[where G = G and goal = goal])
  case (Empty cl st)
  then show ?case by (simp add: dfs_loop_empty)
next
  case (Closed q cur p cl st)
  then show ?case by (simp add: dfs_loop_closed)
next
  case (Goal q p cl st)
  then show ?case by (simp add: dfs_loop_goal)
next
  case (KeyError q cur p cl st)
  then show ?case by (simp add: dfs_loop_keyerror)
next
  case (Expand q cur p cl st adj)
  from Expand.prems(1) have cur: "path_between G start cur p" by simp
  have "\<forall>e\<in>set (q @ push_neighbors p (insert cur cl) (sorted_reverse adj)).
          path_between G start (fst e) (snd e)"
    using Expand.prems(1) pushed_path_between[OF cur Expand.hyps(3) set_sorted_reverse]
    by auto
  moreover have "dfs_loop G goal (q @ push_neighbors p (insert cur cl) (sorted_reverse adj))
     (insert cur cl) (st @ [dfs_step cur p cl q]) = Inr (Some P, st')"
    using Expand.prems(2) Expand.hyps by (simp add: dfs_loop_expand)
  ultimately show ?case by (rule Expand.IH)
qed

lemma dfs_loop_distinct:
  assumes "distinct (map current st)" "current ` set st \<subseteq> cl"
    and "dfs_loop G goal q cl st = Inr (r, st')"
  shows "distinct (map current st')"
  using assms
proof (induction q cl st rule: dfs_loop_induct[where G = G and goal = goal])
  case (Empty cl st)
  then show ?case by (simp add: dfs_loop_empty)
next
  case (Closed q cur p cl st)
  then show ?case by (simp add: dfs_loop_closed)
next
  case (Goal q p cl st)
  then show ?case by (auto simp: dfs_loop_goal dfs_step_def)
next
  case (KeyError q cur p cl st)
  then show ?case by (simp add: dfs_loop_keyerror)
next
  case (Expand q cur p cl st adj)
  have "distinct (map current (st @ [dfs_step cur p cl q]))"
    using Expand.prems(1,2) Expand.hyps(1) by (auto simp: dfs_step_def)
  moreover have "current ` set (st @ [dfs_step cur p cl q]) \<subseteq> insert cur cl"
    using Expand.prems(2) by (auto simp: dfs_step_def)
  moreover have "dfs_loop G goal (q @ push_neighbors p (insert cur cl) (sorted_reverse adj))
     (insert cur cl) (st @ [dfs_step cur p cl q]) = Inr (r, st')"
    using Expand.prems(3) Expand.hyps by (simp add: dfs_loop_expand)
  ultimately show ?case by (rule Expand.IH)
qed

lemma dfs_loop_no_error:
  assumes "graph_closed G" "\<forall>e\<in>set q. fst e \<in> fst ` set G"
  shows "\<exists>r st'. dfs_loop G goal q cl st = Inr (r, st')"
  using assms(2)
proof (induction q cl st rule: dfs_loop_induct[where G = G and goal = goal])
  case (Empty cl st)
  then show ?case by (simp add: dfs_loop_empty)
next
  case (Closed q cur p cl st)
  then show ?case by (simp add: dfs_loop_closed)
next
  case (Goal q p cl st)
  then show ?case by (simp add: dfs_loop_goal)
next
  case (KeyError q cur p cl st)
  then show ?case using key_lookup[of cur G] by simp
next
  case (Expand q cur p cl st adj)
  have "\<forall>e\<in>set (q @ push_neighbors p (insert cur cl) (sorted_reverse adj)). fst e \<in> fst ` set G"
    using Expand.prems pushed_keys[OF assms(1) Expand.hyps(3) set_sorted_reverse]
    by auto
  from Expand.IH[OF this] show ?case using Expand.hyps by (simp add: dfs_loop_expand)
qed

lemma dfs_loop_complete:
  assumes "path_between G start goal Q"
    and "start \<in> cl \<union> fst ` set q"
    and "\<forall>c\<in>cl. \<forall>n\<in>fst ` set (adjacent G c). n \<in> cl \<union> fst ` set q"
    and "goal \<notin> cl"
  shows "dfs_loop G goal q cl st \<noteq> Inr (None, st')"
  using assms(2-)
proof (induction q cl st rule: dfs_loop_induct[where G = G and goal = goal])
  case (Empty cl st)
  with frontier[OF assms(1), of cl "fst ` set []"] show ?case by simp
next
  case (Closed q cur p cl st)
  have "start \<in> cl \<union> fst ` set q" using Closed.prems(1) Closed.hyps by auto
  moreover have "\<forall>c\<in>cl. \<forall>n\<in>fst ` set (adjacent G c). n \<in> cl \<union> fst ` set q"
    using Closed.prems(2) Closed.hyps by auto
  ultimately show ?case using Closed.IH Closed.prems(3) Closed.hyps by (simp add: dfs_loop_closed)
next
  case (Goal q p cl st)
  then show ?case by (simp add: dfs_loop_goal)
next
  case (KeyError q cur p cl st)
  then show ?case by (simp add: dfs_loop_keyerror)
next
  case (Expand q cur p cl st adj)
  let ?q = "q @ push_neighbors p (insert cur cl) (sorted_reverse adj)"
  have opn: "fst ` set ?q = fst ` set q \<union> {n \<in> fst ` set adj. n \<notin> insert cur cl}"
    by (force simp: set_push_neighbors set_sorted_reverse image_Un)
  have 1: "start \<in> insert cur cl \<union> fst ` set ?q"
    using Expand.prems(1) by auto
  have 2: "\<forall>c\<in>insert cur cl. \<forall>n\<in>fst ` set (adjacent G c). n \<in> insert cur cl \<union> fst ` set ?q"
  proof (intro ballI)
    fix c n assume c: "c \<in> insert cur cl" and n: "n \<in> fst ` set (adjacent G c)"
    show "n \<in> insert cur cl \<union> fst ` set ?q"
    proof (cases "c = cur")
      case True
      with n Expand.hyps(3) have "n \<in> fst ` set adj" by (simp add: map_of_adjacent)
      then show ?thesis unfolding opn by blast
    next
      case False
      with c n Expand.prems(2) have "n \<in> cl \<union> fst ` set (q @ [(cur, p)])" by blast
      then show ?thesis unfolding opn by auto
    qed
  qed
  have 3: "goal \<notin> insert cur cl" using Expand.prems(3) Expand.hyps by auto
  from Expand.IH[OF 1 2 3] show ?case using Expand.hyps by (simp add: dfs_loop_expand)
qed

lemma bfs_loop_closed:
  "cur \<in> cl \<Longrightarrow> bfs_loop G goal ((cur, p) # q) cl st = bfs_loop G goal q cl st"
  by (simp add: bfs_loop.simps)

lemma bfs_loop_goal:
  "goal \<notin> cl \<Longrightarrow> bfs_loop G goal ((goal, p) # q) cl st = Inr (Some p, st @ [bfs_step goal p cl q])"
  by (simp add: bfs_step_def)

lemma bfs_loop_keyerror:
  "cur \<notin> cl \<Longrightarrow> cur \<noteq> goal \<Longrightarrow> map_of G cur = None \<Longrightarrow>
   bfs_loop G goal ((cur, p) # q) cl st = Inl KeyError"
  by simp

lemma bfs_loop_expand:
  "cur \<notin> cl \<Longrightarrow> cur \<noteq> goal \<Longrightarrow> map_of G cur = Some adj \<Longrightarrow>
   bfs_loop G goal ((cur, p) # q) cl st =
   bfs_loop G goal (q @ push_neighbors p (insert cur cl) (sort_key fst adj)) (insert cur cl)
     (st @ [bfs_step cur p cl q])"
  by (simp add: bfs_step_def Let_def)

declare bfs_loop.simps(2) [simp del]

lemma bfs_loop_induct [case_names Empty Closed Goal KeyError Expand]:
  assumes "\<And>cl st. P [] cl st"
    and "\<And>q cur p cl st. cur \<in> cl \<Longrightarrow> P q cl st \<Longrightarrow> P ((cur, p) # q) cl st"
    and "\<And>q p cl st. goal \<notin> cl \<Longrightarrow> P ((goal, p) # q) cl st"
    and "\<And>q cur p cl st. cur \<notin> cl \<Longrightarrow> cur \<noteq> goal \<Longrightarrow> map_of G cur = None \<Longrightarrow>
           P ((cur, p) # q) cl st"
    and "\<And>q cur p cl st adj. cur \<notin> cl \<Longrightarrow> cur \<noteq> goal \<Longrightarrow> map_of G cur = Some adj \<Longrightarrow>
           P (q @ push_neighbors p (insert cur cl) (sort_key fst adj)) (insert cur cl)
             (st @ [bfs_step cur p cl q]) \<Longrightarrow>
           P ((cur, p) # q) cl st"
  shows "P q cl st"
  using assms
proof (induction G goal q cl st rule: bfs_loop.induct)
  case (1 G goal cl st)
  then show ?case by blast
next
  case (2 G goal cur p q cl st)
  note hyps = "2.prems"
  show ?case
  proof (cases "cur \<in> cl")
    case True
    have "P q cl st" by (rule "2.IH"(1)[OF True hyps])
    then show ?thesis by (rule hyps(2)[OF True])
  next
    case ncl: False
    show ?thesis
    proof (cases "cur = goal")
      case True
      have "P ((goal, p) # q) cl st" using ncl True by (intro hyps(3)) simp
      then show ?thesis by (simp only: True)
    next
      case ng: False
      show ?thesis
      proof (cases "map_of G cur")
        case None
        show ?thesis by (rule hyps(4)[OF ncl ng None])
      next
        case (Some adj)
        have "P (q @ push_neighbors p (insert cur cl) (sort_key fst adj)) (insert cur cl)
                (st @ [\<lparr>current = cur, path = p, closed = insert cur cl, open_nodes = map fst q\<rparr>])"
          by (rule "2.IH"(2)[OF ncl refl refl ng Some hyps])
        then have "P (q @ push_neighbors p (insert cur cl) (sort_key fst adj)) (insert cur cl)
           (st @ [bfs_step cur p cl q])"
          by (simp only: bfs_step_def)
        then show ?thesis by (rule hyps(5)[OF ncl ng Some])
      qed
    qed
  qed
qed

lemma set_sort_key_fst: "set (sort_key fst adj) = set adj"
  by simp

lemma bfs_loop_valid:
  assumes "\<forall>e\<in>set q. path_between G start (fst e) (snd e)"
    and "bfs_loop G goal q cl st = Inr (Some P, st')"
  shows "path_between G start goal P"
  using assms
proof (induction q cl st rule: bfs_loop_induct[where G = G and goal = goal])
  case (Empty cl st)
  then show ?case by simp
next
  case (Closed q cur p cl st)
  then show ?case by (simp add: bfs_loop_closed)
next
  case (Goal q p cl st)
  then show ?case by (simp add: bfs_loop_goal)
next
  case (KeyError q cur p cl st)
  then show ?case by (simp add: bfs_loop_keyerror)
next
  case (Expand q cur p cl st adj)
  from Expand.prems(1) have cur: "path_between G start cur p" by simp
  have "\<forall>e\<in>set (q @ push_neighbors p (insert cur cl) (sort_key fst adj)).
          path_between G start (fst e) (snd e)"
    using Expand.prems(1) pushed_path_between[OF cur Expand.hyps(3) set_sort_key_fst]
    by auto
  moreover have "bfs_loop G goal (q @ push_neighbors p (insert cur cl) (sort_key fst adj))
     (insert cur cl) (st @ [bfs_step cur p cl q]) = Inr (Some P, st')"
    using Expand.prems(2) Expand.hyps by (simp add: bfs_loop_expand)
  ultimately show ?case by (rule Expand.IH)
qed

lemma bfs_loop_distinct:
  assumes "distinct (map current st)" "current ` set st \<subseteq> cl"
    and "bfs_loop G goal q cl st = Inr (r, st')"
  shows "distinct (map current st')"
  using assms
proof (induction q cl st rule: bfs_loop_induct[where G = G and goal = goal])
  case (Empty cl st)
  then show ?case by simp
next
  case (Closed q cur p cl st)
  then show ?case by (simp add: bfs_loop_closed)
next
  case (Goal q p cl st)
  then show ?case by (auto simp: bfs_loop_goal bfs_step_def)
next
  case (KeyError q cur p cl st)
  then show ?case by (simp add: bfs_loop_keyerror)
next
  case (Expand q cur p cl st adj)
  have "distinct (map current (st @ [bfs_step cur p cl q]))"
    using Expand.prems(1,2) Expand.hyps(1) by (auto simp: bfs_step_def)
  moreover have "current ` set (st @ [bfs_step cur p cl q]) \<subseteq> insert cur cl"
    using Expand.prems(2) by (auto simp: bfs_step_def)
  moreover have "bfs_loop G goal (q @ push_neighbors p (insert cur cl) (sort_key fst adj))
     (insert cur cl) (st @ [bfs_step cur p cl q]) = Inr (r, st')"
    using Expand.prems(3) Expand.hyps by (simp add: bfs_loop_expand)
  ultimately show ?case by (rule Expand.IH)
qed

lemma bfs_loop_no_error:
  assumes "graph_closed G" "\<forall>e\<in>set q. fst e \<in> fst ` set G"
  shows "\<exists>r st'. bfs_loop G goal q cl st = Inr (r, st')"
  using assms(2)
proof (induction q cl st rule: bfs_loop_induct[where G = G and goal = goal])
  case (Empty cl st)
  then show ?case by simp
next
  case (Closed q cur p cl st)
  then show ?case by (simp add: bfs_loop_closed)
next
  case (Goal q p cl st)
  then show ?case by (simp add: bfs_loop_goal)
next
  case (KeyError q cur p cl st)
  then show ?case using key_lookup[of cur G] by simp
next
  case (Expand q cur p cl st adj)
  have "\<forall>e\<in>set (q @ push_neighbors p (insert cur cl) (sort_key fst adj)). fst e \<in> fst ` set G"
    using Expand.prems pushed_keys[OF assms(1) Expand.hyps(3) set_sort_key_fst]
    by auto
  from Expand.IH[OF this] show ?case using Expand.hyps by (simp add: bfs_loop_expand)
qed

lemma bfs_cover:
  assumes inv: "bfs_inv G start q cl st"
    and "path_between G start v Q" "v \<notin> cl"
  shows "\<exists>e\<in>set q. length (snd e) \<le> length Q"
  using assms(2,3)
proof (induction Q arbitrary: v rule: rev_induct)
  case Nil
  then show ?case by (simp add: path_between_def)
next
  case (snoc x Q)
  then have xv: "x = v" by (simp add: path_between_def)
  show ?case
  proof (cases "Q = []")
    case True
    with snoc.prems have "v = start" by (auto simp: path_between_def)
    with snoc.prems inv have "(start, [start]) \<in> set q" by (auto simp: bfs_inv_def)
    then show ?thesis by force
  next
    case False
    with snoc xv have pb: "path_between G start (last Q) Q"
      and adj: "v \<in> fst ` set (adjacent G (last Q))"
      using path_between_butlast[of G start v Q] by auto
    show ?thesis
    proof (cases "last Q \<in> cl")
      case True
      with inv obtain s where s: "s \<in> set st" "current s = last Q"
        by (auto simp: bfs_inv_def)
      with inv pb have len: "length (path s) \<le> length Q"
        by (simp add: bfs_inv_def)
      from inv s adj snoc.prems(2) have "(v, path s @ [v]) \<in> set q"
        unfolding bfs_inv_def by metis
      with len show ?thesis by force
    next
      case False
      from snoc.IH[OF pb False] obtain e where "e \<in> set q" "length (snd e) \<le> length Q"
        by blast
      then show ?thesis by (intro bexI[of _ e]) simp_all
    qed
  qed
qed

lemma bfs_head_shortest:
  assumes inv: "bfs_inv G start ((cur, p) # q) cl st"
    and "path_between G start v Q" "v \<notin> cl"
  shows "length p \<le> length Q"
proof -
  from bfs_cover[OF assms] obtain e where e: "e \<in> set ((cur, p) # q)" "length (snd e) \<le> length Q"
    by blast
  from inv have "sorted (map (length \<circ> snd) ((cur, p) # q))" by (simp add: bfs_inv_def)
  with e(1) have "length p \<le> length (snd e)" by auto
  with e(2) show ?thesis by simp
qed

lemma bfs_inv_init: "bfs_inv G start [(start, [start])] {} []"
  by (simp add: bfs_inv_def path_between_single)

lemma bfs_inv_pop_closed:
  assumes inv: "bfs_inv G start ((cur, p) # q) cl st" and cur: "cur \<in> cl"
  shows "bfs_inv G start q cl st"
proof -
  have 1: "\<forall>e\<in>set q. path_between G start (fst e) (snd e)"
    using inv by (simp add: bfs_inv_def)
  have 2: "sorted (map (length \<circ> snd) q)"
    using inv by (simp add: bfs_inv_def)
  have srt: "\<forall>e\<in>set q. length p \<le> length (snd e)"
    using inv by (simp add: bfs_inv_def)
  have bnd: "\<forall>e\<in>set q. length (snd e) \<le> Suc (length p)"
    using inv by (simp add: bfs_inv_def)
  have 3: "\<forall>e\<in>set q. length (snd e) \<le> Suc (length (snd (hd q)))"
  proof
    fix e assume e: "e \<in> set q"
    then have "hd q \<in> set q" by (cases q) auto
    with srt have "length p \<le> length (snd (hd q))" by blast
    with bnd e show "length (snd e) \<le> Suc (length (snd (hd q)))" by fastforce
  qed
  have 4: "cl = current ` set st" using inv by (simp add: bfs_inv_def)
  have 5: "start \<in> cl \<or> (start, [start]) \<in> set q"
    using inv cur by (auto simp: bfs_inv_def)
  have 6: "\<forall>s\<in>set st. \<forall>Q. path_between G start (current s) Q \<longrightarrow> length (path s) \<le> length Q"
    using inv by (simp add: bfs_inv_def)
  have 7: "\<forall>s\<in>set st. \<forall>n\<in>fst ` set (adjacent G (current s)). n \<in> cl \<or> (n, path s @ [n]) \<in> set q"
  proof (intro ballI)
    fix s n assume "s \<in> set st" "n \<in> fst ` set (adjacent G (current s))"
    with inv have "n \<in> cl \<or> (n, path s @ [n]) \<in> set ((cur, p) # q)"
      unfolding bfs_inv_def by blast
    with cur show "n \<in> cl \<or> (n, path s @ [n]) \<in> set q" by auto
  qed
  from 1 2 3 4 5 6 7 show ?thesis unfolding bfs_inv_def by blast
qed

lemma bfs_inv_expand:
  assumes inv: "bfs_inv G start ((cur, p) # q) cl st" and cur: "cur \<notin> cl"
    and adj: "map_of G cur = Some adj"
  shows "bfs_inv G start (q @ push_neighbors p (insert cur cl) (sort_key fst adj)) (insert cur cl)
           (st @ [bfs_step cur p cl q])"
proof -
  let ?new = "push_neighbors p (insert cur cl) (sort_key fst adj)"
  let ?q = "q @ ?new"
  have new: "set ?new = {(n, p @ [n]) | n. n \<in> fst ` set adj \<and> n \<notin> insert cur cl}"
    by (simp add: set_push_neighbors)
  have newlen: "\<forall>e\<in>set ?new. length (snd e) = Suc (length p)"
    unfolding new by auto
  have pcur: "path_between G start cur p" using inv by (simp add: bfs_inv_def)
  have 1: "\<forall>e\<in>set ?q. path_between G start (fst e) (snd e)"
    using inv pushed_path_between[OF pcur adj set_sort_key_fst]
    by (auto simp: bfs_inv_def)
  have srt: "\<forall>e\<in>set q. length p \<le> length (snd e)"
    using inv by (simp add: bfs_inv_def)
  have bnd: "\<forall>e\<in>set q. length (snd e) \<le> Suc (length p)"
    using inv by (simp add: bfs_inv_def)
  have 2: "sorted (map (length \<circ> snd) ?q)"
  proof -
    have a: "sorted (map (length \<circ> snd) q)" using inv by (simp add: bfs_inv_def)
    have b: "sorted (map (length \<circ> snd) ?new)"
      using newlen by (simp add: sorted_wrt_iff_nth_less)
    show ?thesis using a b bnd newlen by (auto simp: sorted_append)
  qed
  have 3: "\<forall>e\<in>set ?q. length (snd e) \<le> Suc (length (snd (hd ?q)))"
  proof
    fix e assume e: "e \<in> set ?q"
    then have "?q \<noteq> []" by auto
    then have "hd ?q \<in> set ?q" by (rule hd_in_set)
    then have "length p \<le> length (snd (hd ?q))" using srt newlen by fastforce
    moreover have "length (snd e) \<le> Suc (length p)" using e bnd newlen by fastforce
    ultimately show "length (snd e) \<le> Suc (length (snd (hd ?q)))" by simp
  qed
  have 4: "insert cur cl = current ` set (st @ [bfs_step cur p cl q])"
    using inv by (auto simp: bfs_inv_def bfs_step_def)
  have 5: "start \<in> insert cur cl \<or> (start, [start]) \<in> set ?q"
    using inv by (auto simp: bfs_inv_def)
  have 6: "\<forall>s\<in>set (st @ [bfs_step cur p cl q]). \<forall>Q. path_between G start (current s) Q
             \<longrightarrow> length (path s) \<le> length Q"
  proof (intro ballI allI impI)
    fix s Q assume s: "s \<in> set (st @ [bfs_step cur p cl q])" and Q: "path_between G start (current s) Q"
    show "length (path s) \<le> length Q"
    proof (cases "s \<in> set st")
      case True
      with inv Q show ?thesis by (simp add: bfs_inv_def)
    next
      case False
      with s have "s = bfs_step cur p cl q" by simp
      then have "current s = cur" "path s = p" by (simp_all add: bfs_step_def)
      with bfs_head_shortest[OF inv _ cur] Q show ?thesis by simp
    qed
  qed
  have 7: "\<forall>s\<in>set (st @ [bfs_step cur p cl q]). \<forall>n\<in>fst ` set (adjacent G (current s)).
             n \<in> insert cur cl \<or> (n, path s @ [n]) \<in> set ?q"
  proof (intro ballI)
    fix s n assume s: "s \<in> set (st @ [bfs_step cur p cl q])"
      and n: "n \<in> fst ` set (adjacent G (current s))"
    show "n \<in> insert cur cl \<or> (n, path s @ [n]) \<in> set ?q"
    proof (cases "s \<in> set st")
      case True
      with inv n have "n \<in> cl \<or> (n, path s @ [n]) \<in> set ((cur, p) # q)"
        unfolding bfs_inv_def by blast
      then show ?thesis by auto
    next
      case False
      with s have "s = bfs_step cur p cl q" by simp
      then have cs: "current s = cur" "path s = p" by (simp_all add: bfs_step_def)
      with n adj have "n \<in> fst ` set adj" by (simp add: map_of_adjacent)
      then show ?thesis unfolding cs using new by auto
    qed
  qed
  from 1 2 3 4 5 6 7 show ?thesis unfolding bfs_inv_def by blast
qed

lemma bfs_loop_optimal:
  assumes "bfs_inv G start q cl st" "goal \<notin> cl" "path_between G start goal Q"
    and "bfs_loop G goal q cl st = Inr (r, st')"
  shows "\<exists>P. r = Some P \<and> length P \<le> length Q"
  using assms(1,2,4)
proof (induction q cl st rule: bfs_loop_induct[where G = G and goal = goal])
  case (Empty cl st)
  with bfs_cover[OF Empty.prems(1) assms(3)] show ?case by simp
next
  case (Closed q cur p cl st)
  from Closed.prems(1) Closed.hyps have "bfs_inv G start q cl st" by (rule bfs_inv_pop_closed)
  with Closed show ?case by (simp add: bfs_loop_closed)
next
  case (Goal q p cl st)
  from bfs_head_shortest[OF Goal.prems(1) assms(3) Goal.hyps] Goal.prems(3) Goal.hyps
  show ?case by (auto simp: bfs_loop_goal)
next
  case (KeyError q cur p cl st)
  then show ?case by (simp add: bfs_loop_keyerror)
next
  case (Expand q cur p cl st adj)
  have "bfs_inv G start (q @ push_neighbors p (insert cur cl) (sort_key fst adj)) (insert cur cl)
           (st @ [bfs_step cur p cl q])"
    using Expand.prems(1) Expand.hyps(1,3) by (rule bfs_inv_expand)
  moreover have "goal \<notin> insert cur cl" using Expand.prems(2) Expand.hyps by auto
  moreover have "bfs_loop G goal (q @ push_neighbors p (insert cur cl) (sort_key fst adj))
     (insert cur cl) (st @ [bfs_step cur p cl q]) = Inr (r, st')"
    using Expand.prems(3) Expand.hyps by (simp add: bfs_loop_expand)
  ultimately show ?case by (rule Expand.IH)
qed

lemma heappop_props:
  assumes "H \<noteq> []" "heappop H = (m, H')"
  shows "m \<in> set H" "\<forall>x\<in>set H. m \<le> x" "set H' \<subseteq> set H" "set H \<subseteq> insert m (set H')"
proof -
  from assms have m: "m = Min (set H)" and H': "H' = remove1 m H"
    by (auto simp: heappop_def Let_def)
  show "m \<in> set H" using assms(1) m by (simp add: Min_in)
  show "\<forall>x\<in>set H. m \<le> x" using m by simp
  show "set H' \<subseteq> set H" using H' by (simp add: set_remove1_subset)
  show "set H \<subseteq> insert m (set H')"
  proof
    fix x assume "x \<in> set H"
    then show "x \<in> insert m (set H')" unfolding H' by (cases "x = m") simp_all
  qed
qed

lemma astar_loop_empty: "astar_loop G h goal [] cl gc st = Inr (None, 0, st)"
  by (simp add: astar_loop.simps)

lemma astar_loop_closed:
  "H \<noteq> [] \<Longrightarrow> heappop H = ((f, g, cur, p), H') \<Longrightarrow> cur \<in> cl \<Longrightarrow>
   astar_loop G h goal H cl gc st = astar_loop G h goal H' cl gc st"
  by (subst astar_loop.simps) simp

lemma astar_loop_no_heuristic:
  "H \<noteq> [] \<Longrightarrow> heappop H = ((f, g, cur, p), H') \<Longrightarrow> cur \<notin> cl \<Longrightarrow> h cur = None \<Longrightarrow>
   astar_loop G h goal H cl gc st = Inl KeyError"
  by (subst astar_loop.simps) simp

lemma astar_loop_goal:
  "H \<noteq> [] \<Longrightarrow> heappop H = ((f, g, goal, p), H') \<Longrightarrow> goal \<notin> cl \<Longrightarrow> h goal = Some hc \<Longrightarrow>
   astar_loop G h goal H cl gc st = Inr (Some p, g, st @ [astar_step f g goal p hc cl])"
  by (subst astar_loop.simps) (simp add: astar_step_def)

lemma astar_loop_keyerror:
  "H \<noteq> [] \<Longrightarrow> heappop H = ((f, g, cur, p), H') \<Longrightarrow> cur \<notin> cl \<Longrightarrow> h cur = Some hc \<Longrightarrow>
   cur \<noteq> goal \<Longrightarrow> map_of G cur = None \<Longrightarrow>
   astar_loop G h goal H cl gc st = Inl KeyError"
  by (subst astar_loop.simps) simp

lemma astar_loop_relax_error:
  "H \<noteq> [] \<Longrightarrow> heappop H = ((f, g, cur, p), H') \<Longrightarrow> cur \<notin> cl \<Longrightarrow> h cur = Some hc \<Longrightarrow>
   cur \<noteq> goal \<Longrightarrow> map_of G cur = Some adj \<Longrightarrow>
   relax h (insert cur cl) g p adj (gc, H') = Inl e \<Longrightarrow>
   astar_loop G h goal H cl gc st = Inl e"
  by (subst astar_loop.simps) simp

lemma astar_loop_expand:
  "H \<noteq> [] \<Longrightarrow> heappop H = ((f, g, cur, p), H') \<Longrightarrow> cur \<notin> cl \<Longrightarrow> h cur = Some hc \<Longrightarrow>
   cur \<noteq> goal \<Longrightarrow> map_of G cur = Some adj \<Longrightarrow>
   relax h (insert cur cl) g p adj (gc, H') = Inr (gc', H'') \<Longrightarrow>
   astar_loop G h goal H cl gc st =
   astar_loop G h goal H'' (insert cur cl) gc' (st @ [astar_step f g cur p hc cl])"
  by (subst astar_loop.simps) (simp add: astar_step_def Let_def)

lemma astar_loop_induct [case_names Empty Closed NoHeuristic Goal KeyError RelaxError Expand]:
  assumes "\<And>cl gc st. P [] cl gc st"
    and "\<And>H f g cur p H' cl gc st. H \<noteq> [] \<Longrightarrow> heappop H = ((f, g, cur, p), H') \<Longrightarrow> cur \<in> cl \<Longrightarrow>
           P H' cl gc st \<Longrightarrow> P H cl gc st"
    and "\<And>H f g cur p H' cl gc st. H \<noteq> [] \<Longrightarrow> heappop H = ((f, g, cur, p), H') \<Longrightarrow> cur \<notin> cl \<Longrightarrow>
           h cur = None \<Longrightarrow> P H cl gc st"
    and "\<And>H f g p H' cl gc st hc. H \<noteq> [] \<Longrightarrow> heappop H = ((f, g, goal, p), H') \<Longrightarrow> goal \<notin> cl \<Longrightarrow>
           h goal = Some hc \<Longrightarrow> P H cl gc st"
    and "\<And>H f g cur p H' cl gc st hc. H \<noteq> [] \<Longrightarrow> heappop H = ((f, g, cur, p), H') \<Longrightarrow> cur \<notin> cl \<Longrightarrow>
           h cur = Some hc \<Longrightarrow> cur \<noteq> goal \<Longrightarrow> map_of G cur = None \<Longrightarrow> P H cl gc st"
    and "\<And>H f g cur p H' cl gc st hc adj e. H \<noteq> [] \<Longrightarrow> heappop H = ((f, g, cur, p), H') \<Longrightarrow>
           cur \<notin> cl \<Longrightarrow> h cur = Some hc \<Longrightarrow> cur \<noteq> goal \<Longrightarrow> map_of G cur = Some adj \<Longrightarrow>
           relax h (insert cur cl) g p adj (gc, H') = Inl e \<Longrightarrow> P H cl gc st"
    and "\<And>H f g cur p H' cl gc st hc adj gc' H''. H \<noteq> [] \<Longrightarrow> heappop H = ((f, g, cur, p), H') \<Longrightarrow>
           cur \<notin> cl \<Longrightarrow> h cur = Some hc \<Longrightarrow> cur \<noteq> goal \<Longrightarrow> map_of G cur = Some adj \<Longrightarrow>
           relax h (insert cur cl) g p adj (gc, H') = Inr (gc', H'') \<Longrightarrow>
           P H'' (insert cur cl) gc' (st @ [astar_step f g cur p hc cl]) \<Longrightarrow> P H cl gc st"
  shows "P H cl gc st"
  using assms
proof (induction G h goal H cl gc st rule: astar_loop.induct)
  case (1 G h goal H cl gc st)
  note hyps = "1.prems"
  show ?case
  proof (cases "H = []")
    case True
    then show ?thesis using hyps(1)[of cl gc st] by simp
  next
    case ne: False
    obtain f g cur p H' where pop: "heappop H = ((f, g, cur, p), H')"
      by (metis surj_pair)
    note pop' = pop[symmetric]
    show ?thesis
    proof (cases "cur \<in> cl")
      case True
      have "P H' cl gc st"
        by (rule "1.IH"(1)[OF ne pop' refl refl refl True hyps])
      then show ?thesis by (rule hyps(2)[OF ne pop True])
    next
      case ncl: False
      show ?thesis
      proof (cases "h cur")
        case None
        show ?thesis by (rule hyps(3)[OF ne pop ncl None])
      next
        case (Some hc)
        show ?thesis
        proof (cases "cur = goal")
          case True
          show ?thesis using ne pop ncl Some unfolding True by (rule hyps(4))
        next
          case ng: False
          show ?thesis
          proof (cases "map_of G cur")
            case None
            show ?thesis by (rule hyps(5)[OF ne pop ncl Some ng None])
          next
            case adj: (Some adj)
            show ?thesis
            proof (cases "relax h (insert cur cl) g p adj (gc, H')")
              case (Inl e)
              show ?thesis by (rule hyps(6)[OF ne pop ncl Some ng adj Inl])
            next
              case (Inr res)
              obtain gc' H'' where res: "res = (gc', H'')" by (cases res)
              note rel = Inr[unfolded res]
              have "P H'' (insert cur cl) gc'
                      (st @ [\<lparr>current = cur, path = p, closed = insert cur cl,
                               f_cost = f, g_cost = g, h_cost = hc\<rparr>])"
                by (rule "1.IH"(2)[OF ne pop' refl refl refl ncl refl Some refl ng adj rel refl hyps])
              then have "P H'' (insert cur cl) gc' (st @ [astar_step f g cur p hc cl])"
                by (simp only: astar_step_def)
              then show ?thesis by (rule hyps(7)[OF ne pop ncl Some ng adj rel])
            qed
          qed
        qed
      qed
    qed
  qed
qed

lemma relax_Cons:
  "relax h cl g p ((n, w) # rest) (gc, H) =
     (if n \<in> cl then relax h cl g p rest (gc, H)
      else if (case gc n of None \<Rightarrow> True | Some old_g \<Rightarrow> g + w < old_g) then
        (case h n of None \<Rightarrow> Inl KeyError
         | Some hn \<Rightarrow> relax h cl g p rest (gc(n \<mapsto> g + w), H @ [(g + w + hn, g + w, n, p @ [n])]))
      else relax h cl g p rest (gc, H))"
  by (simp add: Let_def heappush_def split: option.splits)

declare relax.simps(2) [simp del]

lemma relax_sets_both:
  assumes "relax h cl g p adj (gc, H) = Inr (gc', H')"
  shows "set H \<subseteq> set H' \<and>
         set H' \<subseteq> set H \<union> {(g + w + hn, g + w, n, p @ [n]) | n w hn.
                                (n, w) \<in> set adj \<and> n \<notin> cl \<and> h n = Some hn}"
  using assms
proof (induction adj arbitrary: gc H)
  case Nil
  then show ?case by simp
next
  case (Cons e rest)
  obtain n w where e: "e = (n, w)" by (cases e)
  let ?new = "\<lambda>adj. {(g + w + hn, g + w, n, p @ [n]) | n w hn.
                                (n, w) \<in> set adj \<and> n \<notin> cl \<and> h n = Some hn}"
  have mono: "?new rest \<subseteq> ?new (e # rest)" by auto
  show ?case
  proof (cases "n \<notin> cl \<and> (case gc n of None \<Rightarrow> True | Some old_g \<Rightarrow> g + w < old_g)")
    case False
    with Cons.prems have r: "relax h cl g p rest (gc, H) = Inr (gc', H')"
      by (auto simp: e relax_Cons split: if_splits)
    from Cons.IH[OF r] mono show ?thesis by blast
  next
    case True
    with Cons.prems obtain hn where hn: "h n = Some hn"
      and r: "relax h cl g p rest (gc(n \<mapsto> g + w), H @ [(g + w + hn, g + w, n, p @ [n])]) = Inr (gc', H')"
      by (auto simp: e relax_Cons split: if_splits option.splits)
    have "(g + w + hn, g + w, n, p @ [n]) \<in> ?new (e # rest)"
      using True hn unfolding e by auto
    with Cons.IH[OF r] mono show ?thesis by auto
  qed
qed

lemma relax_sets:
  assumes "relax h cl g p adj (gc, H) = Inr (gc', H')"
  shows "set H \<subseteq> set H'"
    and "set H' \<subseteq> set H \<union> {(g + w + hn, g + w, n, p @ [n]) | n w hn.
                                (n, w) \<in> set adj \<and> n \<notin> cl \<and> h n = Some hn}"
  using relax_sets_both[OF assms] by (rule conjunct1, rule conjunct2)

lemma relax_no_error:
  assumes "\<forall>e\<in>set adj. fst e \<in> cl \<or> h (fst e) \<noteq> None"
  shows "\<exists>gc' H'. relax h cl g p adj (gc, H) = Inr (gc', H')"
  using assms
proof (induction adj arbitrary: gc H)
  case Nil
  then show ?case by simp
next
  case (Cons e rest)
  obtain n w where e: "e = (n, w)" by (cases e)
  from Cons.prems have rest: "\<forall>e\<in>set rest. fst e \<in> cl \<or> h (fst e) \<noteq> None" by simp
  from Cons.prems e have "n \<in> cl \<or> h n \<noteq> None" by simp
  then show ?case
    using Cons.IH[OF rest] unfolding e relax_Cons by (auto split: option.splits)
qed

lemma tracked_push:
  assumes "tracked cl gc H"
  shows "tracked cl (gc(n \<mapsto> x)) (H @ [(f, x, n, p)])"
  using assms unfolding tracked_def by (auto split: if_splits)

lemma relax_tracked:
  assumes "relax h cl g p adj (gc, H) = Inr (gc', H')" "tracked cl gc H"
  shows "tracked cl gc' H' \<and>
         (\<forall>e\<in>set adj. fst e \<notin> cl \<longrightarrow> (\<exists>f g' p'. (f, g', fst e, p') \<in> set H' \<and> g' \<le> g + snd e))"
  using assms
proof (induction adj arbitrary: gc H)
  case Nil
  then show ?case by simp
next
  case (Cons e rest)
  obtain n w where e: "e = (n, w)" by (cases e)
  show ?case
  proof (cases "n \<in> cl")
    case True
    with Cons.prems have "relax h cl g p rest (gc, H) = Inr (gc', H')"
      by (simp add: e relax_Cons)
    from Cons.IH[OF this Cons.prems(2)] True show ?thesis unfolding e by simp
  next
    case ncl: False
    show ?thesis
    proof (cases "case gc n of None \<Rightarrow> True | Some old_g \<Rightarrow> g + w < old_g")
      case True
      with ncl Cons.prems obtain hn where hn: "h n = Some hn"
        and r: "relax h cl g p rest (gc(n \<mapsto> g + w), H @ [(g + w + hn, g + w, n, p @ [n])]) = Inr (gc', H')"
        by (auto simp: e relax_Cons split: if_splits option.splits)
      have t: "tracked cl (gc(n \<mapsto> g + w)) (H @ [(g + w + hn, g + w, n, p @ [n])])"
        using Cons.prems(2) by (rule tracked_push)
      from relax_sets(1)[OF r] have "(g + w + hn, g + w, n, p @ [n]) \<in> set H'" by auto
      then have "\<exists>f g' p'. (f, g', n, p') \<in> set H' \<and> g' \<le> g + w" by force
      with Cons.IH[OF r t] show ?thesis unfolding e by simp
    next
      case False
      then obtain old where old: "gc n = Some old" "old \<le> g + w"
        by (auto split: option.splits)
      from False ncl Cons.prems have r: "relax h cl g p rest (gc, H) = Inr (gc', H')"
        by (simp add: e relax_Cons)
      from Cons.prems(2) old ncl obtain f p' where "(f, old, n, p') \<in> set H"
        unfolding tracked_def by blast
      with relax_sets(1)[OF r] have "(f, old, n, p') \<in> set H'" by auto
      with old have "\<exists>f g' p'. (f, g', n, p') \<in> set H' \<and> g' \<le> g + w" by blast
      with Cons.IH[OF r Cons.prems(2)] show ?thesis unfolding e by simp
    qed
  qed
qed

lemma costed_route_single: "costed_route G start start [start] 0"
  by (auto simp: costed_route_def)

lemma route_nonempty: "route G p ws \<Longrightarrow> p \<noteq> []"
  by auto

lemma costed_route_snoc:
  assumes "costed_route G start cur p g" "(n, w) \<in> set (adjacent G cur)"
  shows "costed_route G start n (p @ [n]) (g + w)"
proof -
  from assms(1) obtain ws where ws: "route G p ws" "sum_list ws = g" "hd p = start" "last p = cur"
    by (auto simp: costed_route_def)
  from ws(1) have ne: "p \<noteq> []" by (rule route_nonempty)
  with ws assms(2) have "route G (p @ [n]) (ws @ [w])" by (simp add: route_snoc)
  moreover have "sum_list (ws @ [w]) = g + w" using ws by simp
  moreover have "hd (p @ [n]) = start" using ne ws by simp
  ultimately show ?thesis unfolding costed_route_def by (intro exI[of _ "ws @ [w]"]) simp
qed

lemma heap_items_pop:
  assumes "H \<noteq> []" "heappop H = (m, H')" "\<forall>e\<in>set H. Q e"
  shows "Q m" "\<forall>e\<in>set H'. Q e"
  using heappop_props(1,3)[OF assms(1,2)] assms(3) by auto

lemma relax_items:
  assumes r: "relax h cl g p adj (gc, H) = Inr (gc', H')"
    and H: "\<forall>e\<in>set H. Q e"
    and new: "\<And>n w hn. (n, w) \<in> set adj \<Longrightarrow> n \<notin> cl \<Longrightarrow> h n = Some hn \<Longrightarrow> Q (g + w + hn, g + w, n, p @ [n])"
  shows "\<forall>e\<in>set H'. Q e"
proof
  fix e assume "e \<in> set H'"
  with relax_sets(2)[OF r] have "e \<in> set H \<or> (\<exists>n w hn. (n, w) \<in> set adj \<and> n \<notin> cl \<and> h n = Some hn \<and> e = (g + w + hn, g + w, n, p @ [n]))"
    by blast
  with H new show "Q e" by blast
qed

lemma astar_loop_valid:
  assumes "\<forall>e\<in>set H. item_ok G start e"
    and "astar_loop G h goal H cl gc st = Inr (r, c, st')"
  shows "case r of None \<Rightarrow> c = 0 | Some P \<Rightarrow> costed_route G start goal P c"
  using assms
proof (induction H cl gc st rule: astar_loop_induct[where G = G and h = h and goal = goal])
  case (Empty cl gc st)
  then show ?case by (auto simp: astar_loop_empty)
next
  case (Closed H f g cur p H' cl gc st)
  from heap_items_pop(2)[OF Closed.hyps(1,2) Closed.prems(1)] Closed show ?case
    by (simp add: astar_loop_closed)
next
  case (NoHeuristic H f g cur p H' cl gc st)
  then show ?case by (simp add: astar_loop_no_heuristic)
next
  case (Goal H f g p H' cl gc st hc)
  from heap_items_pop(1)[OF Goal.hyps(1,2) Goal.prems(1)] have "costed_route G start goal p g"
    by (simp add: item_ok_def)
  with Goal show ?case by (auto simp: astar_loop_goal)
next
  case (KeyError H f g cur p H' cl gc st hc)
  then show ?case by (simp add: astar_loop_keyerror)
next
  case (RelaxError H f g cur p H' cl gc st hc adj e)
  then show ?case by (simp add: astar_loop_relax_error)
next
  case (Expand H f g cur p H' cl gc st hc adj gc' H'')
  from heap_items_pop[OF Expand.hyps(1,2) Expand.prems(1)]
  have cur: "costed_route G start cur p g" and H': "\<forall>e\<in>set H'. item_ok G start e"
    by (simp_all add: item_ok_def)
  have "\<forall>e\<in>set H''. item_ok G start e"
  proof (rule relax_items[OF Expand.hyps(7) H'])
    fix n w hn assume "(n, w) \<in> set adj"
    with Expand.hyps(6) have "(n, w) \<in> set (adjacent G cur)" by (simp add: map_of_adjacent)
    with cur show "item_ok G start (g + w + hn, g + w, n, p @ [n])"
      by (simp add: item_ok_def costed_route_snoc)
  qed
  moreover have "astar_loop G h goal H'' (insert cur cl) gc' (st @ [astar_step f g cur p hc cl]) = Inr (r, c, st')"
    using Expand.prems(2) astar_loop_expand[OF Expand.hyps(1-7)] by simp
  ultimately show ?case by (rule Expand.IH)
qed

lemma astar_loop_distinct:
  assumes "distinct (map current st)" "current ` set st \<subseteq> cl"
    and "astar_loop G h goal H cl gc st = Inr (r, c, st')"
  shows "distinct (map current st')"
  using assms
proof (induction H cl gc st rule: astar_loop_induct[where G = G and h = h and goal = goal])
  case (Empty cl gc st)
  then show ?case by (auto simp: astar_loop_empty)
next
  case (Closed H f g cur p H' cl gc st)
  then show ?case by (simp add: astar_loop_closed)
next
  case (NoHeuristic H f g cur p H' cl gc st)
  then show ?case by (simp add: astar_loop_no_heuristic)
next
  case (Goal H f g p H' cl gc st hc)
  then show ?case by (auto simp: astar_loop_goal astar_step_def)
next
  case (KeyError H f g cur p H' cl gc st hc)
  then show ?case by (simp add: astar_loop_keyerror)
next
  case (RelaxError H f g cur p H' cl gc st hc adj e)
  then show ?case by (simp add: astar_loop_relax_error)
next
  case (Expand H f g cur p H' cl gc st hc adj gc' H'')
  have "distinct (map current (st @ [astar_step f g cur p hc cl]))"
    using Expand.prems(1,2) Expand.hyps(3) by (auto simp: astar_step_def)
  moreover have "current ` set (st @ [astar_step f g cur p hc cl]) \<subseteq> insert cur cl"
    using Expand.prems(2) by (auto simp: astar_step_def)
  moreover have "astar_loop G h goal H'' (insert cur cl) gc' (st @ [astar_step f g cur p hc cl]) = Inr (r, c, st')"
    using Expand.prems(3) astar_loop_expand[OF Expand.hyps(1-7)] by simp
  ultimately show ?case by (rule Expand.IH)
qed

lemma has_heuristic_key: "has_heuristic G h \<Longrightarrow> u \<in> fst ` set G \<Longrightarrow> h u \<noteq> None"
  by (auto simp: has_heuristic_def)

lemma astar_loop_no_error:
  assumes "graph_closed G" "has_heuristic G h"
    and "\<forall>e\<in>set H. fst (snd (snd e)) \<in> fst ` set G"
  shows "\<exists>r. astar_loop G h goal H cl gc st = Inr r"
  using assms(3)
proof (induction H cl gc st rule: astar_loop_induct[where G = G and h = h and goal = goal])
  case (Empty cl gc st)
  then show ?case by (auto simp: astar_loop_empty)
next
  case (Closed H f g cur p H' cl gc st)
  from heap_items_pop(2)[OF Closed.hyps(1,2) Closed.prems(1)] Closed show ?case
    by (simp add: astar_loop_closed)
next
  case (NoHeuristic H f g cur p H' cl gc st)
  from heap_items_pop(1)[OF NoHeuristic.hyps(1,2) NoHeuristic.prems(1)]
  have "cur \<in> fst ` set G" by simp
  with has_heuristic_key[OF assms(2), of cur] NoHeuristic.hyps show ?case by simp
next
  case (Goal H f g p H' cl gc st hc)
  then show ?case by (auto simp: astar_loop_goal)
next
  case (KeyError H f g cur p H' cl gc st hc)
  from heap_items_pop(1)[OF KeyError.hyps(1,2) KeyError.prems(1)]
  have "cur \<in> fst ` set G" by simp
  with key_lookup[of cur G] KeyError.hyps show ?case by simp
next
  case (RelaxError H f g cur p H' cl gc st hc adj e)
  have "\<forall>e\<in>set adj. fst e \<in> insert cur cl \<or> h (fst e) \<noteq> None"
  proof
    fix e assume "e \<in> set adj"
    then have "(fst e, snd e) \<in> set (adjacent G cur)"
      using RelaxError.hyps(6) by (simp add: map_of_adjacent)
    from graph_closed_adjacent[OF assms(1) this] has_heuristic_key[OF assms(2)]
    show "fst e \<in> insert cur cl \<or> h (fst e) \<noteq> None" by blast
  qed
  from relax_no_error[OF this, of g p gc H'] RelaxError.hyps(7) show ?case by simp
next
  case (Expand H f g cur p H' cl gc st hc adj gc' H'')
  from heap_items_pop(2)[OF Expand.hyps(1,2) Expand.prems(1)]
  have H': "\<forall>e\<in>set H'. fst (snd (snd e)) \<in> fst ` set G" .
  have "\<forall>e\<in>set H''. fst (snd (snd e)) \<in> fst ` set G"
  proof (rule relax_items[OF Expand.hyps(7) H'])
    fix n w hn assume "(n, w) \<in> set adj"
    with Expand.hyps(6) have "(n, w) \<in> set (adjacent G cur)" by (simp add: map_of_adjacent)
    from graph_closed_adjacent[OF assms(1) this]
    show "fst (snd (snd (g + w + hn, g + w, n, p @ [n]))) \<in> fst ` set G" by simp
  qed
  from Expand.IH[OF this] show ?case
    using astar_loop_expand[OF Expand.hyps(1-7)] by simp
qed

lemma astar_inv_items:
  "astar_inv G h start H cl gc st \<Longrightarrow> e \<in> set H \<Longrightarrow> item_ok G start e \<and> item_f h e"
  unfolding astar_inv_def by blast

lemma astar_inv_heuristic:
  "astar_inv G h start H cl gc st \<Longrightarrow> (f, g, n, p) \<in> set H \<Longrightarrow> h n = Some (f - g)"
  using astar_inv_items[of G h start H cl gc st "(f, g, n, p)"] by (simp add: item_f_def)

lemma astar_inv_closed: "astar_inv G h start H cl gc st \<Longrightarrow> cl = current ` set st"
  unfolding astar_inv_def by blast

lemma astar_inv_steps:
  "astar_inv G h start H cl gc st \<Longrightarrow> s \<in> set st \<Longrightarrow> route G Q ws \<Longrightarrow> hd Q = start \<Longrightarrow>
   last Q = current s \<Longrightarrow> g_cost s \<le> sum_list ws"
  unfolding astar_inv_def by blast

lemma astar_inv_tracked: "astar_inv G h start H cl gc st \<Longrightarrow> tracked cl gc H"
  unfolding astar_inv_def by blast

lemma astar_inv_succ:
  "astar_inv G h start H cl gc st \<Longrightarrow> s \<in> set st \<Longrightarrow> (n, w) \<in> set (adjacent G (current s)) \<Longrightarrow>
   n \<notin> cl \<Longrightarrow> \<exists>f g p. (f, g, n, p) \<in> set H \<and> g \<le> g_cost s + w"
  unfolding astar_inv_def by fastforce

lemma astar_inv_start:
  "astar_inv G h start H cl gc st \<Longrightarrow> start \<notin> cl \<Longrightarrow> \<exists>f g p. (f, g, start, p) \<in> set H \<and> g \<le> 0"
  unfolding astar_inv_def by blast

lemma consistent_edge:
  assumes "consistent G h" "(v, w) \<in> set (adjacent G u)" "h u = Some hu" "h v = Some hv"
  shows "hu \<le> w + hv"
proof (cases "map_of G u")
  case None
  with assms(2) show ?thesis by (simp add: adjacent_def)
next
  case (Some adj)
  then have "(u, adj) \<in> set G" by (rule map_of_SomeD)
  moreover from Some assms(2) have "(v, w) \<in> set adj" by (simp add: adjacent_def)
  ultimately show ?thesis using assms(1,3,4) unfolding consistent_def by fastforce
qed

lemma route_snoc_cases:
  assumes "route G (Q @ [v]) ws" "Q \<noteq> []"
  obtains ws' w where "ws = ws' @ [w]" "route G Q ws'" "(v, w) \<in> set (adjacent G (last Q))"
proof -
  from route_length[OF assms(1)] assms(2) have "ws \<noteq> []" by (cases ws) auto
  then obtain ws' w where ws: "ws = ws' @ [w]" by (metis rev_exhaust)
  with assms have "route G Q ws' \<and> (v, w) \<in> set (adjacent G (last Q))"
    by (simp add: route_snoc)
  with ws that show thesis by blast
qed

lemma astar_cover:
  assumes inv: "astar_inv G h start H cl gc st"
    and cons: "consistent G h" and hh: "has_heuristic G h"
    and "route G Q ws" "hd Q = start" "last Q = v" "v \<notin> cl"
  shows "\<exists>e\<in>set H. \<forall>hv. h v = Some hv \<longrightarrow> fst e \<le> sum_list ws + hv"
  using assms(4-)
proof (induction Q arbitrary: v ws rule: rev_induct)
  case Nil
  then show ?case by simp
next
  case (snoc x Q)
  then have xv: "x = v" by simp
  show ?case
  proof (cases "Q = []")
    case True
    with snoc.prems xv have v: "v = start" and ws: "ws = []" by auto
    with astar_inv_start[OF inv] snoc.prems obtain f g p where e: "(f, g, start, p) \<in> set H" "g \<le> 0"
      by blast
    with astar_inv_heuristic[OF inv] have "h start = Some (f - g)" by simp
    with e v ws show ?thesis by (intro bexI[of _ "(f, g, start, p)"]) auto
  next
    case False
    from snoc.prems(1) False xv obtain ws' w where ws: "ws = ws' @ [w]" "route G Q ws'"
      "(v, w) \<in> set (adjacent G (last Q))"
      by (auto elim: route_snoc_cases)
    from False snoc.prems(2) have hdQ: "hd Q = start" by simp
    show ?thesis
    proof (cases "last Q \<in> cl")
      case True
      with astar_inv_closed[OF inv] obtain s where s: "s \<in> set st" "current s = last Q"
        by auto
      have le: "g_cost s \<le> sum_list ws'"
        using astar_inv_steps[OF inv s(1) ws(2) hdQ] s(2) by simp
      from astar_inv_succ[OF inv s(1), of v w] ws(3) s(2) snoc.prems(4)
      obtain f g p where e: "(f, g, v, p) \<in> set H" "g \<le> g_cost s + w"
        by auto
      with astar_inv_heuristic[OF inv] have "h v = Some (f - g)" by simp
      with e le ws(1) show ?thesis by (intro bexI[of _ "(f, g, v, p)"]) auto
    next
      case False
      from snoc.IH[OF ws(2) hdQ refl False] obtain e where e: "e \<in> set H"
        "\<forall>hu. h (last Q) = Some hu \<longrightarrow> fst e \<le> sum_list ws' + hu" by blast
      from ws(3) have "last Q \<in> fst ` set G" by (intro adjacent_key[of v]) (auto intro: rev_image_eqI)
      with has_heuristic_key[OF hh] obtain hu where hu: "h (last Q) = Some hu" by blast
      have "\<forall>hv. h v = Some hv \<longrightarrow> fst e \<le> sum_list ws + hv"
      proof (intro allI impI)
        fix hv assume "h v = Some hv"
        from consistent_edge[OF cons ws(3) hu this] e(2) hu ws(1)
        show "fst e \<le> sum_list ws + hv" by auto
      qed
      with e(1) show ?thesis by blast
    qed
  qed
qed

lemma astar_head_optimal:
  assumes inv: "astar_inv G h start H cl gc st"
    and cons: "consistent G h" and hh: "has_heuristic G h"
    and ne: "H \<noteq> []" and pop: "heappop H = ((f, g, cur, p), H')"
    and "route G Q ws" "hd Q = start" "last Q = cur" "cur \<notin> cl"
  shows "g \<le> sum_list ws"
proof -
  from astar_cover[OF inv cons hh assms(6-)] obtain e where e: "e \<in> set H"
    "\<forall>hv. h cur = Some hv \<longrightarrow> fst e \<le> sum_list ws + hv" by blast
  from heappop_props(1)[OF ne pop] astar_inv_heuristic[OF inv] have "h cur = Some (f - g)"
    by simp
  with e(2) have "fst e \<le> sum_list ws + (f - g)" by simp
  moreover from heappop_props(2)[OF ne pop] e(1) have "(f, g, cur, p) \<le> e" by blast
  then have "f \<le> fst e" by (cases e) (auto simp: less_eq_prod_def)
  ultimately show ?thesis by simp
qed

lemma path_between_start_key:
  assumes "path_between G start goal Q" "start \<noteq> goal"
  shows "start \<in> fst ` set G"
proof -
  from assms obtain v Q' where Q: "Q = start # v # Q'"
    unfolding path_between_def by (cases Q; cases "tl Q") auto
  with assms(1) have "v \<in> fst ` set (adjacent G start)" by (simp add: path_between_def)
  then show ?thesis by (rule adjacent_key)
qed

lemma path_between_nonempty: "path_between G start goal Q \<Longrightarrow> Q \<noteq> []"
  by (auto simp: path_between_def)

lemma costed_route_path_between: "costed_route G start goal P c \<Longrightarrow> path_between G start goal P"
  by (auto simp: costed_route_def path_between_def dest: route_valid_path)

lemma bfs_same: "bfs G start start =
     Inr (Some [start], [\<lparr>current = start, path = [start], closed = {start}, open_nodes = []\<rparr>])"
  by (simp add: bfs_def bfs_loop.simps)

lemma dfs_same: "dfs G start start =
     Inr (Some [start], [\<lparr>current = start, path = [start], closed = {start}, open_nodes = []\<rparr>])"
  by (simp add: dfs_def dfs_loop.simps Let_def)

lemma poland_graph_built: "build_graph poland_cities poland_edges = Inr poland_graph"
  by code_simp

lemma poland_closed: "graph_closed poland_graph"
  by code_simp

lemma poland_has_heuristic: "has_heuristic poland_graph poland_heuristic"
  by code_simp

lemma poland_consistent: "consistent poland_graph poland_heuristic"
  by code_simp

lemma poland_path: "path_between poland_graph ''Glogow'' ''Plock''
   [''Glogow'', ''Leszno'', ''Poznan'', ''Bydgoszcz'', ''Wloclawek'', ''Plock'']"
  by code_simp

lemma closed_set_no_path:
  assumes "start \<in> S" "goal \<notin> S" "\<forall>u\<in>S. fst ` set (adjacent G u) \<subseteq> S"
  shows "\<not> (\<exists>Q. path_between G start goal Q)"
proof
  assume "\<exists>Q. path_between G start goal Q"
  then obtain Q where "path_between G start goal Q" ..
  from frontier[OF this assms(2), of "{}"] assms(1,3) show False by auto
qed

lemma astar_inv_init:
  assumes "h start = Some h0"
  shows "astar_inv G h start [(h0, 0, start, [start])] {} [start \<mapsto> 0] []"
  unfolding astar_inv_def using assms
  by (auto simp: item_ok_def item_f_def costed_route_single tracked_def split: if_splits)

lemma heappop_keeps:
  assumes "H \<noteq> []" "heappop H = ((f, g, cur, p), H')" "(f', g', n, p') \<in> set H" "n \<noteq> cur"
  shows "(f', g', n, p') \<in> set H'"
  using heappop_props(4)[OF assms(1,2)] assms(3,4) by auto

lemma tracked_pop:
  assumes "tracked cl gc H" "H \<noteq> []" "heappop H = ((f, g, cur, p), H')" "cur \<in> cl'" "cl \<subseteq> cl'"
  shows "tracked cl' gc H'"
  unfolding tracked_def
proof (intro allI impI)
  fix n x assume a: "gc n = Some x \<and> n \<notin> cl'"
  with assms(1,5) obtain f' p' where "(f', x, n, p') \<in> set H"
    unfolding tracked_def by blast
  moreover from a assms(4) have "n \<noteq> cur" by auto
  ultimately have "(f', x, n, p') \<in> set H'" by (rule heappop_keeps[OF assms(2,3)])
  then show "\<exists>f p. (f, x, n, p) \<in> set H'" by blast
qed

lemma astar_inv_pop_closed:
  assumes inv: "astar_inv G h start H cl gc st"
    and ne: "H \<noteq> []" and pop: "heappop H = ((f, g, cur, p), H')" and cur: "cur \<in> cl"
  shows "astar_inv G h start H' cl gc st"
proof -
  have 1: "\<forall>e\<in>set H'. item_ok G start e \<and> item_f h e"
    using astar_inv_items[OF inv] heappop_props(3)[OF ne pop] by blast
  have 2: "cl = current ` set st" by (rule astar_inv_closed[OF inv])
  have 3: "\<forall>s\<in>set st. \<forall>Q ws. route G Q ws \<and> hd Q = start \<and> last Q = current s
             \<longrightarrow> g_cost s \<le> sum_list ws"
    using astar_inv_steps[OF inv] by blast
  have 4: "tracked cl gc H'"
    by (rule tracked_pop[OF astar_inv_tracked[OF inv] ne pop cur]) simp
  have 5: "\<forall>s\<in>set st. \<forall>e\<in>set (adjacent G (current s)).
          fst e \<in> cl \<or> (\<exists>f g p. (f, g, fst e, p) \<in> set H' \<and> g \<le> g_cost s + snd e)"
  proof (intro ballI)
    fix s e assume s: "s \<in> set st" and e: "e \<in> set (adjacent G (current s))"
    show "fst e \<in> cl \<or> (\<exists>f g p. (f, g, fst e, p) \<in> set H' \<and> g \<le> g_cost s + snd e)"
    proof (cases "fst e \<in> cl")
      case False
      from astar_inv_succ[OF inv s, of "fst e" "snd e"] e False
      obtain f' g' p' where x: "(f', g', fst e, p') \<in> set H" "g' \<le> g_cost s + snd e" by auto
      from False cur have "fst e \<noteq> cur" by auto
      from heappop_keeps[OF ne pop x(1) this] x(2) show ?thesis by blast
    qed simp
  qed
  have 6: "start \<in> cl \<or> (\<exists>f g p. (f, g, start, p) \<in> set H' \<and> g \<le> 0)"
  proof (cases "start \<in> cl")
    case False
    from astar_inv_start[OF inv False] obtain f' g' p' where x: "(f', g', start, p') \<in> set H" "g' \<le> 0"
      by blast
    from False cur have "start \<noteq> cur" by auto
    from heappop_keeps[OF ne pop x(1) this] x(2) show ?thesis by blast
  qed simp
  from 1 2 3 4 5 6 show ?thesis unfolding astar_inv_def by blast
qed

lemma astar_inv_expand:
  assumes inv: "astar_inv G h start H cl gc st"
    and cons: "consistent G h" and hh: "has_heuristic G h"
    and ne: "H \<noteq> []" and pop: "heappop H = ((f, g, cur, p), H')" and cur: "cur \<notin> cl"
    and hc: "h cur = Some hc" and adj: "map_of G cur = Some adj"
    and rel: "relax h (insert cur cl) g p adj (gc, H') = Inr (gc', H'')"
  shows "astar_inv G h start H'' (insert cur cl) gc' (st @ [astar_step f g cur p hc cl])"
proof -
  let ?s = "astar_step f g cur p hc cl"
  have cs: "current ?s = cur" "g_cost ?s = g" by (simp_all add: astar_step_def)
  from astar_inv_items[OF inv heappop_props(1)[OF ne pop]]
  have curok: "costed_route G start cur p g" by (simp add: item_ok_def)
  have H': "\<forall>e\<in>set H'. item_ok G start e \<and> item_f h e"
    using astar_inv_items[OF inv] heappop_props(3)[OF ne pop] by blast
  have 1: "\<forall>e\<in>set H''. item_ok G start e \<and> item_f h e"
  proof (rule relax_items[OF rel H'])
    fix n w hn assume nw: "(n, w) \<in> set adj" and hn: "h n = Some hn"
    from nw adj have "(n, w) \<in> set (adjacent G cur)" by (simp add: map_of_adjacent)
    with curok hn show "item_ok G start (g + w + hn, g + w, n, p @ [n]) \<and>
        item_f h (g + w + hn, g + w, n, p @ [n])"
      by (simp add: item_ok_def item_f_def costed_route_snoc)
  qed
  have 2: "insert cur cl = current ` set (st @ [?s])"
    using astar_inv_closed[OF inv] by (auto simp: astar_step_def)
  have 3: "\<forall>s\<in>set (st @ [?s]). \<forall>Q ws. route G Q ws \<and> hd Q = start \<and> last Q = current s
             \<longrightarrow> g_cost s \<le> sum_list ws"
  proof (intro ballI allI impI)
    fix s Q ws assume s: "s \<in> set (st @ [?s])"
      and Q: "route G Q ws \<and> hd Q = start \<and> last Q = current s"
    show "g_cost s \<le> sum_list ws"
    proof (cases "s \<in> set st")
      case True
      with astar_inv_steps[OF inv] Q show ?thesis by blast
    next
      case False
      with s have "s = ?s" by simp
      with astar_head_optimal[OF inv cons hh ne pop _ _ _ cur, of Q ws] Q cs show ?thesis by simp
    qed
  qed
  have t: "tracked (insert cur cl) gc H'"
    by (rule tracked_pop[OF astar_inv_tracked[OF inv] ne pop]) auto
  from relax_tracked[OF rel t]
  have 4: "tracked (insert cur cl) gc' H''"
    and new: "\<forall>e\<in>set adj. fst e \<notin> insert cur cl \<longrightarrow>
                (\<exists>f g' p'. (f, g', fst e, p') \<in> set H'' \<and> g' \<le> g + snd e)"
    by simp_all
  have 5: "\<forall>s\<in>set (st @ [?s]). \<forall>e\<in>set (adjacent G (current s)).
          fst e \<in> insert cur cl \<or> (\<exists>f g p. (f, g, fst e, p) \<in> set H'' \<and> g \<le> g_cost s + snd e)"
  proof (intro ballI)
    fix s e assume s: "s \<in> set (st @ [?s])" and e: "e \<in> set (adjacent G (current s))"
    show "fst e \<in> insert cur cl \<or> (\<exists>f g p. (f, g, fst e, p) \<in> set H'' \<and> g \<le> g_cost s + snd e)"
    proof (cases "fst e \<in> insert cur cl")
      case False
      show ?thesis
      proof (cases "s \<in> set st")
        case True
        from astar_inv_succ[OF inv True, of "fst e" "snd e"] e False
        obtain f' g' p' where x: "(f', g', fst e, p') \<in> set H" "g' \<le> g_cost s + snd e" by auto
        from False have "fst e \<noteq> cur" by auto
        from heappop_keeps[OF ne pop x(1) this] relax_sets(1)[OF rel]
        have "(f', g', fst e, p') \<in> set H''" by blast
        with x(2) show ?thesis by blast
      next
        case ns: False
        with s have "s = ?s" by simp
        with e adj cs have "e \<in> set adj" by (simp add: map_of_adjacent)
        with new False \<open>s = ?s\<close> cs show ?thesis by auto
      qed
    qed simp
  qed
  have 6: "start \<in> insert cur cl \<or> (\<exists>f g p. (f, g, start, p) \<in> set H'' \<and> g \<le> 0)"
  proof (cases "start \<in> insert cur cl")
    case False
    then have "start \<notin> cl" "start \<noteq> cur" by auto
    from astar_inv_start[OF inv this(1)] obtain f' g' p' where x: "(f', g', start, p') \<in> set H" "g' \<le> 0"
      by blast
    from heappop_keeps[OF ne pop x(1) \<open>start \<noteq> cur\<close>] relax_sets(1)[OF rel]
    have "(f', g', start, p') \<in> set H''" by blast
    with x(2) show ?thesis by blast
  qed simp
  from 1 2 3 4 5 6 show ?thesis unfolding astar_inv_def by blast
qed

lemma astar_loop_optimal:
  assumes cons: "consistent G h" and hh: "has_heuristic G h"
    and Q: "route G Q ws" "hd Q = start" "last Q = goal"
    and "astar_inv G h start H cl gc st" "goal \<notin> cl"
    and "astar_loop G h goal H cl gc st = Inr (r, c, st')"
  shows "\<exists>P. r = Some P \<and> c \<le> sum_list ws"
  using assms(6-)
proof (induction H cl gc st rule: astar_loop_induct[where G = G and h = h and goal = goal])
  case (Empty cl gc st)
  from astar_cover[OF Empty.prems(1) cons hh Q Empty.prems(2)] show ?case by simp
next
  case (Closed H f g cur p H' cl gc st)
  from astar_inv_pop_closed[OF Closed.prems(1) Closed.hyps(1,2,3)]
  have "astar_inv G h start H' cl gc st" .
  with Closed show ?case by (simp add: astar_loop_closed)
next
  case (NoHeuristic H f g cur p H' cl gc st)
  then show ?case by (simp add: astar_loop_no_heuristic)
next
  case (Goal H f g p H' cl gc st hc)
  from astar_head_optimal[OF Goal.prems(1) cons hh Goal.hyps(1,2) Q Goal.hyps(3)]
  have "g \<le> sum_list ws" .
  with Goal.prems(3) Goal.hyps show ?case by (auto simp: astar_loop_goal)
next
  case (KeyError H f g cur p H' cl gc st hc)
  then show ?case by (simp add: astar_loop_keyerror)
next
  case (RelaxError H f g cur p H' cl gc st hc adj e)
  then show ?case by (simp add: astar_loop_relax_error)
next
  case (Expand H f g cur p H' cl gc st hc adj gc' H'')
  have "astar_inv G h start H'' (insert cur cl) gc' (st @ [astar_step f g cur p hc cl])"
    by (rule astar_inv_expand[OF Expand.prems(1) cons hh Expand.hyps(1,2,3,4,6,7)])
  moreover have "goal \<notin> insert cur cl" using Expand.prems(2) Expand.hyps(5) by auto
  moreover have "astar_loop G h goal H'' (insert cur cl) gc' (st @ [astar_step f g cur p hc cl]) = Inr (r, c, st')"
    using Expand.prems(3) astar_loop_expand[OF Expand.hyps(1-7)] by simp
  ultimately show ?case by (rule Expand.IH)
qed

lemma zero_table_consistent: "nonneg_costs G \<Longrightarrow> consistent G (zero_table h)"
  unfolding nonneg_costs_def consistent_def zero_table_def
  by (fastforce split: option.splits)

lemma zero_table_has_heuristic: "has_heuristic G h \<Longrightarrow> has_heuristic G (zero_table h)"
  unfolding has_heuristic_def zero_table_def by (auto split: option.splits)

lemma potential_bound:
  assumes cons: "consistent G d" and hh: "has_heuristic G d"
    and "route G p ws" "d (last p) = Some b"
  shows "\<exists>a. d (hd p) = Some a \<and> a \<le> sum_list ws + b"
  using assms(3,4)
proof (induction p arbitrary: ws)
  case Nil
  then show ?case by simp
next
  case (Cons u p)
  show ?case
  proof (cases p)
    case Nil
    with Cons.prems show ?thesis by simp
  next
    case (Cons v q)
    with Cons.prems(1) obtain w ws' where ws: "ws = w # ws'" by (cases ws) auto
    with Cons.prems Cons have e: "(v, w) \<in> set (adjacent G u)" and r: "route G p ws'"
      and l: "d (last p) = Some b" by simp_all
    from Cons.IH[OF r l] Cons obtain a' where a': "d v = Some a'" "a' \<le> sum_list ws' + b"
      by auto
    from e have "u \<in> fst ` set G" by (intro adjacent_key[of v]) (auto intro: rev_image_eqI)
    with has_heuristic_key[OF hh] obtain a where a: "d u = Some a" by blast
    from consistent_edge[OF cons e a a'(1)] a'(2) a ws show ?thesis by simp
  qed
qed

lemma admissible_by_potential:
  assumes "consistent G d" "has_heuristic G d" "d goal = Some 0"
    and "\<forall>n x a. h n = Some x \<and> d n = Some a \<longrightarrow> x \<le> a"
  shows "admissible G h goal"
  unfolding admissible_def
proof (intro allI impI)
  fix p ws x assume a: "route G p ws \<and> last p = goal \<and> h (hd p) = Some x"
  with potential_bound[OF assms(1,2), of p ws 0] assms(3)
  obtain y where "d (hd p) = Some y" "y \<le> sum_list ws" by auto
  with a assms(4) show "x \<le> sum_list ws" by fastforce
qed

lemma detour_admissible: "admissible detour_graph detour_heuristic ''G''"
proof (rule admissible_by_potential[where d = detour_distance])
  show "consistent detour_graph detour_distance" by code_simp
  show "has_heuristic detour_graph detour_distance" by code_simp
  show "detour_distance ''G'' = Some 0" by code_simp
  show "\<forall>n x a. detour_heuristic n = Some x \<and> detour_distance n = Some a \<longrightarrow> x \<le> a"
    by (auto simp: detour_heuristic_def detour_distance_def split: if_splits)
qed

lemma astar_optimal_run:
  assumes "graph_closed G" "has_heuristic G h" "consistent G h" "start \<in> fst ` set G"
    and "path_between G start goal Q"
  shows "\<exists>P c st. astar G h start goal = Inr (Some P, c, st) \<and> costed_route G start goal P c \<and>
           (\<forall>Q' ws'. route G Q' ws' \<and> hd Q' = start \<and> last Q' = goal \<longrightarrow> c \<le> sum_list ws')"
proof -
  from has_heuristic_key[OF assms(2,4)] obtain h0 where h0: "h start = Some h0" by blast
  let ?H = "[(h0, 0, start, [start])]"
  have keys: "\<forall>e\<in>set ?H. fst (snd (snd e)) \<in> fst ` set G" using assms(4) by simp
  from astar_loop_no_error[OF assms(1,2) keys, of goal "{}" "[start \<mapsto> 0]" "[]"]
  obtain r c st where res: "astar_loop G h goal ?H {} [start \<mapsto> 0] [] = Inr (r, c, st)"
    by (metis prod_cases3)
  from assms(5) obtain ws where Q: "route G Q ws" "hd Q = start" "last Q = goal"
    using valid_path_route[of G Q] by (auto simp: path_between_def)
  have inv: "astar_inv G h start ?H {} [start \<mapsto> 0] []" using h0 by (rule astar_inv_init)
  from astar_loop_optimal[OF assms(3,2) Q inv _ res] obtain P where P: "r = Some P" by auto
  have "\<forall>e\<in>set ?H. item_ok G start e" by (simp add: item_ok_def costed_route_single)
  from astar_loop_valid[OF this res] P have v: "costed_route G start goal P c" by simp
  have "\<forall>Q' ws'. route G Q' ws' \<and> hd Q' = start \<and> last Q' = goal \<longrightarrow> c \<le> sum_list ws'"
  proof (intro allI impI)
    fix Q' ws' assume "route G Q' ws' \<and> hd Q' = start \<and> last Q' = goal"
    then have "route G Q' ws'" "hd Q' = start" "last Q' = goal" by simp_all
    from astar_loop_optimal[OF assms(3,2) this inv _ res] show "c \<le> sum_list ws'" by auto
  qed
  with res P v h0 show ?thesis by (simp add: astar_def)
qed

lemma poland_nonneg: "nonneg_costs poland_graph"
  by code_simp

lemma relax_missing_entry:
  assumes "\<exists>e\<in>set adj. fst e \<notin> cl \<and> h (fst e) = None \<and> gc (fst e) = None"
  shows "relax h cl g p adj (gc, H) = Inl KeyError"
  using assms
proof (induction adj arbitrary: gc H)
  case Nil
  then show ?case by simp
next
  case (Cons e rest)
  obtain m w where e: "e = (m, w)" by (cases e)
  show ?case
  proof (cases "m \<notin> cl \<and> h m = None \<and> gc m = None")
    case True
    then show ?thesis by (simp add: e relax_Cons)
  next
    case False
    with Cons.prems e obtain e' where e': "e' \<in> set rest" "fst e' \<notin> cl" "h (fst e') = None"
      "gc (fst e') = None" by auto
    show ?thesis
    proof (cases "m \<notin> cl \<and> (case gc m of None \<Rightarrow> True | Some old_g \<Rightarrow> g + w < old_g)")
      case skip: False
      have "relax h cl g p rest (gc, H) = Inl KeyError"
        using e' by (intro Cons.IH) blast
      with skip show ?thesis by (auto simp: e relax_Cons)
    next
      case push: True
      show ?thesis
      proof (cases "h m")
        case None
        with push show ?thesis by (simp add: e relax_Cons)
      next
        case (Some hm)
        with e'(3) have "fst e' \<noteq> m" by auto
        with e' have "\<exists>x\<in>set rest. fst x \<notin> cl \<and> h (fst x) = None \<and> (gc(m \<mapsto> g + w)) (fst x) = None"
          by (intro bexI[of _ e']) simp_all
        then have "relax h cl g p rest (gc(m \<mapsto> g + w), H @ [(g + w + hm, g + w, m, p @ [m])])
                    = Inl KeyError"
          by (rule Cons.IH)
        with push Some show ?thesis by (simp add: e relax_Cons)
      qed
    qed
  qed
qed

lemma astar_neighbour_missing:
  assumes "h start = Some h0" "start \<noteq> goal" "map_of G start = Some adj"
    and "(n, w) \<in> set adj" "n \<noteq> start" "h n = None"
  shows "astar G h start goal = Inl KeyError"
proof -
  let ?H = "[(h0, 0, start, [start])]"
  have pop: "heappop ?H = ((h0, 0, start, [start]), [])" by (simp add: heappop_def)
  have "\<exists>e\<in>set adj. fst e \<notin> insert start {} \<and> h (fst e) = None \<and> [start \<mapsto> 0] (fst e) = None"
    using assms(4,5,6) by (intro bexI[of _ "(n, w)"]) simp_all
  then have "relax h (insert start {}) 0 [start] adj ([start \<mapsto> 0], []) = Inl KeyError"
    by (rule relax_missing_entry)
  then have "astar_loop G h goal ?H {} [start \<mapsto> 0] [] = Inl KeyError"
    using assms(1,2,3) pop by (intro astar_loop_relax_error[where H' = "[]"]) simp_all
  with assms(1) show ?thesis by (simp add: astar_def)
qed

lemma bind_err_Inr [simp]: "bind_err (Inr x) f = f x"
  by (simp add: bind_err_def)

lemma bind_err_Inl [simp]: "bind_err (Inl e) f = Inl e"
  by (simp add: bind_err_def)

lemma getitem_in_range: "i < length xs \<Longrightarrow> getitem xs i = Inr (xs ! i)"
  by (simp add: getitem_def)

lemma getitem2_square: "square n dp \<Longrightarrow> i < n \<Longrightarrow> j < n \<Longrightarrow> getitem2 dp i j = Inr (dp ! i ! j)"
  by (simp add: getitem2_def getitem_def square_def)

lemma setitem2_square:
  "square n dp \<Longrightarrow> i < n \<Longrightarrow> j < n \<Longrightarrow> setitem2 dp i j v = Inr (set_cell dp i j v)"
  by (simp add: setitem2_def getitem_def square_def set_cell_def)

lemma square_set_cell:
  assumes "square n dp"
  shows "square n (set_cell dp i j v)"
proof -
  have "length (dp[i := (dp ! i)[j := v]] ! a) = n" if "a < n" for a
  proof (cases "a = i")
    case True
    with that assms show ?thesis by (simp add: square_def)
  next
    case False
    with that assms show ?thesis by (simp add: square_def)
  qed
  with assms show ?thesis by (simp add: square_def set_cell_def)
qed

lemma nth_set_cell:
  "square n dp \<Longrightarrow> a < n \<Longrightarrow> b < n \<Longrightarrow>
   set_cell dp i j v ! a ! b = (if a = i \<and> b = j then v else dp ! a ! b)"
  by (cases "a = i"; cases "b = j") (simp_all add: square_def set_cell_def)

lemma set_cell_twice: "square n dp \<Longrightarrow> i < n \<Longrightarrow> set_cell (set_cell dp i j v) i j v' = set_cell dp i j v'"
  by (simp add: set_cell_def square_def)

lemma set_cell_same: "set_cell dp i j (dp ! i ! j) = dp"
  by (simp add: set_cell_def)

lemma split_loop_result:
  assumes "square n dp" "length arr = n" "left < right" "right < n"
    and "\<forall>k\<in>set ks. left < k \<and> k < right"
  shows "split_loop arr left right ks dp =
         Inr (set_cell dp left right
                (fold (\<lambda>k acc. max acc (points_at arr dp left right k)) ks (dp ! left ! right)))"
  using assms(1,5)
proof (induction ks arbitrary: dp)
  case Nil
  then show ?case by (simp add: set_cell_same)
next
  case (Cons k ks)
  from Cons.prems(2) have k: "left < k" "k < right" by simp_all
  with assms(3,4) have kn: "k < n" "left < n" by simp_all
  let ?v = "max (dp ! left ! right) (points_at arr dp left right k)"
  let ?dp = "set_cell dp left right ?v"
  have sq: "square n ?dp" using Cons.prems(1) by (rule square_set_cell)
  have step: "split_loop arr left right (k # ks) dp = split_loop arr left right ks ?dp"
    using Cons.prems(1) assms(2,4) k kn
    by (simp add: getitem2_square getitem_in_range setitem2_square points_at_def Let_def)
  have same: "\<forall>k'\<in>set ks. points_at arr ?dp left right k' = points_at arr dp left right k'"
  proof
    fix k' assume "k' \<in> set ks"
    with Cons.prems(2) have k': "left < k'" "k' < right" by simp_all
    with assms(4) have "k' < n" by simp
    with k' kn assms(4) Cons.prems(1) show "points_at arr ?dp left right k' = points_at arr dp left right k'"
      by (simp add: points_at_def nth_set_cell)
  qed
  have f: "fold (\<lambda>k acc. max acc (points_at arr ?dp left right k)) ks ?v =
           fold (\<lambda>k acc. max acc (points_at arr dp left right k)) ks ?v"
    using same by (intro fold_cong) auto
  have cur: "?dp ! left ! right = ?v"
    using Cons.prems(1) kn assms(4) by (simp add: nth_set_cell)
  from Cons.prems(2) have rest: "\<forall>k\<in>set ks. left < k \<and> k < right" by simp
  show ?case
    unfolding step Cons.IH[OF sq rest] cur f
    using Cons.prems(1) kn by (simp add: set_cell_twice)
qed

lemma fold_max_Max:
  assumes "ks \<noteq> []" "\<forall>k\<in>set ks. a \<le> g k"
  shows "fold (\<lambda>k acc. max acc (g k)) ks a = Max (set (map g ks))"
proof -
  have "(\<lambda>k acc. max acc (g k)) = max \<circ> g"
    by (intro ext) (simp add: max.commute)
  then have "fold (\<lambda>k acc. max acc (g k)) ks a = fold max (map g ks) a"
    by (simp add: fold_map)
  also have "\<dots> = Max (set (a # map g ks))"
    by (simp only: Max.set_eq_fold)
  also have "\<dots> = Max (set (map g ks))"
  proof -
    from assms(1) obtain k where k: "k \<in> set ks" by (cases ks) auto
    have fin: "finite (set (map g ks))" by simp
    have ne: "set (map g ks) \<noteq> {}" using assms(1) by simp
    have "g k \<in> set (map g ks)" using k by simp
    then have "g k \<le> Max (set (map g ks))" using fin by (rule Max_ge[rotated])
    with assms(2) k have le: "a \<le> Max (set (map g ks))" by (meson order_trans)
    have "Max (set (a # map g ks)) = max a (Max (set (map g ks)))"
      unfolding list.set using fin ne by (rule Max_insert)
    with le show ?thesis by (simp only: max.absorb2)
  qed
  finally show ?thesis .
qed

declare score.simps [simp del]

lemma score_base: "right - left < 2 \<Longrightarrow> score arr left right = 0"
  by (subst score.simps) simp

lemma score_step:
  "2 \<le> right - left \<Longrightarrow>
   score arr left right =
     Max (set (map (\<lambda>k. score arr left k + score arr k right
                          + arr ! left * arr ! k * arr ! right) [left + 1..<right]))"
  by (subst score.simps) simp

lemma score_nonneg:
  assumes "\<forall>x\<in>set arr. 0 \<le> x" "right < length arr"
  shows "0 \<le> score arr left right"
  using assms
proof (induction arr left right rule: score.induct)
  case (1 arr left right)
  show ?case
  proof (cases "right - left < 2")
    case True
    then show ?thesis by (simp add: score_base)
  next
    case False
    let ?g = "\<lambda>k. score arr left k + score arr k right + arr ! left * arr ! k * arr ! right"
    let ?k = "left + 1"
    from False have k: "?k \<in> set [left + 1..<right]" by simp
    from False "1.prems"(2) have lt: "left < length arr" "?k < length arr" by simp_all
    have a: "0 \<le> score arr left ?k"
      by (rule "1.IH"(1)[OF False k "1.prems"(1) lt(2)])
    have b: "0 \<le> score arr ?k right"
      by (rule "1.IH"(2)[OF False k "1.prems"])
    have "0 \<le> arr ! left" "0 \<le> arr ! ?k" "0 \<le> arr ! right"
      using "1.prems" lt by (auto simp: nth_mem)
    then have c: "0 \<le> arr ! left * arr ! ?k * arr ! right" by simp
    from a b c have "0 \<le> ?g ?k" by linarith
    moreover have "?g ?k \<in> ?g ` set [left + 1..<right]" using k by (rule imageI)
    then have "?g ?k \<in> set (map ?g [left + 1..<right])" by (simp only: set_map)
    then have "?g ?k \<le> Max (set (map ?g [left + 1..<right]))" by (intro Max_ge) simp_all
    ultimately have "0 \<le> Max (set (map ?g [left + 1..<right]))" by linarith
    with False show ?thesis by (simp add: score_step)
  qed
qed

lemma filled_cell:
  "filled arr n len L dp \<Longrightarrow> l < n \<Longrightarrow> r < n \<Longrightarrow>
   dp ! l ! r = (if r - l < len \<or> (r - l = len \<and> l < L) then score arr l r else 0)"
  unfolding filled_def by blast

lemma filled_square: "filled arr n len L dp \<Longrightarrow> square n dp"
  unfolding filled_def by blast

lemma cell_value:
  assumes f: "filled arr n len L dp" and arr: "length arr = n" "\<forall>x\<in>set arr. 0 \<le> x"
    and len: "2 \<le> len" "L + len < n"
  shows "fold (\<lambda>k acc. max acc (points_at arr dp L (L + len) k)) [L + 1..<L + len]
           (dp ! L ! (L + len)) = score arr L (L + len)"
proof -
  let ?r = "L + len"
  let ?g = "\<lambda>k. score arr L k + score arr k ?r + arr ! L * arr ! k * arr ! ?r"
  from len have Ln: "L < n" by simp
  have init: "dp ! L ! ?r = 0"
    using filled_cell[OF f Ln len(2)] by simp
  have pt: "points_at arr dp L ?r k = ?g k" if "k \<in> set [L + 1..<?r]" for k
  proof -
    from that have k: "L < k" "k < ?r" by simp_all
    with len have kn: "k < n" by simp
    have "dp ! L ! k = score arr L k"
      using filled_cell[OF f Ln kn] k by auto
    moreover have "dp ! k ! ?r = score arr k ?r"
      using filled_cell[OF f kn len(2)] k by auto
    ultimately show ?thesis by (simp add: points_at_def)
  qed
  have nonneg: "0 \<le> ?g k" if "k \<in> set [L + 1..<?r]" for k
  proof -
    from that have k: "L < k" "k < ?r" by simp_all
    with len arr have kn: "k < length arr" "L < length arr" "?r < length arr" by simp_all
    have "0 \<le> score arr L k" "0 \<le> score arr k ?r"
      using arr(2) kn by (simp_all add: score_nonneg)
    moreover have "0 \<le> arr ! L" "0 \<le> arr ! k" "0 \<le> arr ! ?r"
      using arr(2) kn by (auto simp: nth_mem)
    then have "0 \<le> arr ! L * arr ! k * arr ! ?r" by simp
    ultimately show ?thesis by linarith
  qed
  have "fold (\<lambda>k acc. max acc (points_at arr dp L ?r k)) [L + 1..<?r] 0 =
        fold (\<lambda>k acc. max acc (?g k)) [L + 1..<?r] 0"
    using pt by (intro fold_cong) auto
  also have "\<dots> = Max (set (map ?g [L + 1..<?r]))"
  proof (rule fold_max_Max)
    show "[L + 1..<?r] \<noteq> []" using len(1) by simp
    show "\<forall>k\<in>set [L + 1..<?r]. 0 \<le> ?g k" using nonneg by blast
  qed
  also have "\<dots> = score arr L ?r"
    using len(1) by (simp add: score_step)
  finally show ?thesis unfolding init .
qed

lemma left_step:
  assumes f: "filled arr n len L dp" and arr: "length arr = n" "\<forall>x\<in>set arr. 0 \<le> x"
    and len: "2 \<le> len" "L + len < n"
  shows "split_loop arr L (L + len) [L + 1..<L + len] dp =
           Inr (set_cell dp L (L + len) (score arr L (L + len)))"
    and "filled arr n len (Suc L) (set_cell dp L (L + len) (score arr L (L + len)))"
proof -
  let ?r = "L + len"
  let ?dp = "set_cell dp L ?r (score arr L ?r)"
  note sq = filled_square[OF f]
  have "split_loop arr L ?r [L + 1..<?r] dp =
        Inr (set_cell dp L ?r (fold (\<lambda>k acc. max acc (points_at arr dp L ?r k)) [L + 1..<?r]
               (dp ! L ! ?r)))"
    using len by (intro split_loop_result[OF sq arr(1)]) simp_all
  then show "split_loop arr L ?r [L + 1..<?r] dp = Inr ?dp"
    by (simp only: cell_value[OF f arr len])
  have "?dp ! l ! r = (if r - l < len \<or> (r - l = len \<and> l < Suc L) then score arr l r else 0)"
    if "l < n" "r < n" for l r
  proof (cases "l = L \<and> r = ?r")
    case True
    with that sq show ?thesis by (simp add: nth_set_cell)
  next
    case False
    then have "\<not> (r - l = len \<and> l = L)" using len(1) by auto
    then have eq: "(r - l = len \<and> l < Suc L) = (r - l = len \<and> l < L)" by auto
    have "?dp ! l ! r = dp ! l ! r"
      using False nth_set_cell[OF sq that, of L ?r "score arr L ?r"] by auto
    also have "\<dots> = (if r - l < len \<or> (r - l = len \<and> l < L) then score arr l r else 0)"
      by (rule filled_cell[OF f that])
    finally show ?thesis by (simp only: eq)
  qed
  with square_set_cell[OF sq] show "filled arr n len (Suc L) ?dp"
    unfolding filled_def by blast
qed

lemma left_loop_filled:
  assumes arr: "length arr = n" "\<forall>x\<in>set arr. 0 \<le> x" and len: "2 \<le> len" "len < n"
    and "filled arr n len L dp" "L \<le> n - len"
  shows "\<exists>dp'. left_loop arr len [L..<n - len] dp = Inr dp' \<and> filled arr n len (n - len) dp'"
  using assms(5,6)
proof (induction "n - len - L" arbitrary: L dp)
  case 0
  then have "L = n - len" by simp
  with "0.prems" show ?case by simp
next
  case (Suc d)
  then have lt: "L < n - len" by simp
  then have Ll: "L + len < n" by simp
  have up: "[L..<n - len] = L # [Suc L..<n - len]" using lt by (rule upt_conv_Cons)
  note st = left_step[OF Suc.prems(1) arr len(1) Ll]
  have "d = n - len - Suc L" using Suc.hyps(2) by simp
  from Suc.hyps(1)[OF this st(2)] lt
  obtain dp' where "left_loop arr len [Suc L..<n - len]
      (set_cell dp L (L + len) (score arr L (L + len))) = Inr dp'" "filled arr n len (n - len) dp'"
    by auto
  then show ?case unfolding up using st(1) by (simp add: Let_def)
qed

lemma filled_next:
  assumes "filled arr n len (n - len) dp" "0 < len"
  shows "filled arr n (Suc len) 0 dp"
proof -
  have "(r - l < Suc len \<or> (r - l = Suc len \<and> l < 0)) = (r - l < len \<or> (r - l = len \<and> l < n - len))"
    if "l < n" "r < n" for l r
    using that assms(2) by auto
  with assms(1) show ?thesis unfolding filled_def by simp
qed

lemma length_loop_filled:
  assumes arr: "length arr = n" "\<forall>x\<in>set arr. 0 \<le> x"
    and "filled arr n len 0 dp" "2 \<le> len" "len \<le> n"
  shows "\<exists>dp'. length_loop arr n [len..<n] dp = Inr dp' \<and> filled arr n n 0 dp'"
  using assms(3-)
proof (induction "n - len" arbitrary: len dp)
  case 0
  then have "len = n" by simp
  with "0.prems" show ?case by simp
next
  case (Suc d)
  then have lt: "len < n" by simp
  have up: "[len..<n] = len # [Suc len..<n]" using lt by (rule upt_conv_Cons)
  from left_loop_filled[OF arr Suc.prems(2) lt Suc.prems(1)]
  obtain dp1 where dp1: "left_loop arr len [0..<n - len] dp = Inr dp1"
    "filled arr n len (n - len) dp1" by auto
  have nx: "filled arr n (Suc len) 0 dp1"
    using dp1(2) Suc.prems(2) by (intro filled_next) simp_all
  have "d = n - Suc len" using Suc.hyps(2) by simp
  from Suc.hyps(1)[OF this nx] Suc.prems(2) lt
  obtain dp' where "length_loop arr n [Suc len..<n] dp1 = Inr dp'" "filled arr n n 0 dp'"
    by auto
  then show ?case unfolding up by (simp add: dp1(1))
qed

lemma filled_init: "filled arr n 2 0 (replicate n (replicate n 0))"
  unfolding filled_def square_def by (simp add: score_base)

lemma tile_shatter_score:
  assumes "\<forall>x\<in>set tiles. 0 \<le> x"
  shows "strategic_tile_shatter tiles = Inr (score ([1] @ tiles @ [1]) 0 (length tiles + 1))"
proof -
  let ?arr = "[1] @ tiles @ [1]"
  let ?n = "length ?arr"
  have n: "?n = length tiles + 2" by simp
  have arr: "\<forall>x\<in>set ?arr. 0 \<le> x" using assms by auto
  from length_loop_filled[OF refl arr filled_init]
  obtain dp' where dp': "length_loop ?arr ?n [2..<?n] (replicate ?n (replicate ?n 0)) = Inr dp'"
    "filled ?arr ?n ?n 0 dp'" by auto
  have "getitem2 dp' 0 (?n - 1) = Inr (dp' ! 0 ! (?n - 1))"
    by (rule getitem2_square[OF filled_square[OF dp'(2)]]) simp_all
  also have "dp' ! 0 ! (?n - 1) = score ?arr 0 (?n - 1)"
    using filled_cell[OF dp'(2), of 0 "?n - 1"] by simp
  finally have "getitem2 dp' 0 (?n - 1) = Inr (score ?arr 0 (?n - 1))" .
  with dp'(1) show ?thesis
    unfolding strategic_tile_shatter_def Let_def by (simp del: upt_Suc)
qed

section \<open>The trivial search: start equals goal\<close>

text \<open>
  C4 (as amended).  When \<^verbatim>\<open>start == goal\<close>, \<^verbatim>\<open>bfs\<close> and \<^verbatim>\<open>dfs\<close> return the path \<^verbatim>\<open>[start]\<close> (zero
  edges) and a trace of exactly one entry, whose \<^verbatim>\<open>'open'\<close> list is empty, on every graph:
  \<^verbatim>\<open>graph[start]\<close> is never read.  \<^verbatim>\<open>astar\<close> does the same, with cost 0, provided \<^verbatim>\<open>start\<close> has
  an entry in the heuristic table.
\<close>

theorem start_is_goal:
  "bfs G start start =
     Inr (Some [start], [\<lparr>current = start, path = [start], closed = {start}, open_nodes = []\<rparr>])
   \<and> dfs G start start =
     Inr (Some [start], [\<lparr>current = start, path = [start], closed = {start}, open_nodes = []\<rparr>])
   \<and> (heuristic start = Some h \<longrightarrow>
        astar G heuristic start start =
          Inr (Some [start], 0, [\<lparr>current = start, path = [start], closed = {start},
                                  f_cost = h, g_cost = 0, h_cost = h\<rparr>]))"
  by (simp add: bfs_def dfs_def astar_def bfs_loop.simps dfs_loop.simps astar_loop.simps heappop_def Let_def)

theorem start_is_goal_witness:
  "bfs [] ''Plock'' ''Plock'' =
     Inr (Some [''Plock''], [\<lparr>current = ''Plock'', path = [''Plock''], closed = {''Plock''},
                               open_nodes = []\<rparr>])
   \<and> dfs [] ''Plock'' ''Plock'' =
     Inr (Some [''Plock''], [\<lparr>current = ''Plock'', path = [''Plock''], closed = {''Plock''},
                               open_nodes = []\<rparr>])
   \<and> astar [] [''Plock'' \<mapsto> 0] ''Plock'' ''Plock'' =
       Inr (Some [''Plock''], 0, [\<lparr>current = ''Plock'', path = [''Plock''], closed = {''Plock''},
                                   f_cost = 0, g_cost = 0, h_cost = 0\<rparr>])"
  using start_is_goal [of "[]" "''Plock''" "[''Plock'' \<mapsto> 0]" 0] by simp

text \<open>
  Without a heuristic entry for \<^verbatim>\<open>start\<close>, \<^verbatim>\<open>astar\<close> raises \<^verbatim>\<open>KeyError\<close> at
  \<^verbatim>\<open>heuristic[start]\<close>, before the loop, also when \<^verbatim>\<open>start == goal\<close>.
\<close>

theorem start_is_goal_counterexample:
  "astar [(''Plock'', [])] Map.empty ''Plock'' ''Plock'' = Inl KeyError"
  by (simp add: astar_def)

section \<open>The interval solver on the empty sequence\<close>

text \<open>
  C7 (counterexample).  On the empty sequence \<^verbatim>\<open>strategic_tile_shatter\<close> does not fail:
  its result is a value, not an error.
\<close>

theorem empty_input_counterexample: "\<not> isl (strategic_tile_shatter [])"
  by code_simp

text \<open>
  C7 (as amended).  \<^verbatim>\<open>strategic_tile_shatter\<close> does not validate its input: on the empty
  sequence the padded array is \<^verbatim>\<open>[1, 1]\<close>, \<^verbatim>\<open>range(2, 2)\<close> is empty, no cell is written and the
  function returns \<^verbatim>\<open>dp[0][1]\<close>, which is 0.
\<close>

theorem empty_input_returns_zero: "strategic_tile_shatter [] = Inr 0"
  by code_simp

section \<open>Breadth-first search finds a path with the fewest edges\<close>

text \<open>
  C2.  On a graph as the script constructs it (every stored neighbour is a key), whenever
  some path leads from \<^verbatim>\<open>start\<close> to \<^verbatim>\<open>goal\<close>, \<^verbatim>\<open>bfs\<close> returns a path from \<^verbatim>\<open>start\<close> to \<^verbatim>\<open>goal\<close>
  whose number of edges is at most that of every path from \<^verbatim>\<open>start\<close> to \<^verbatim>\<open>goal\<close>; the edge
  weights play no part.
\<close>

theorem bfs_shortest:
  assumes "graph_closed G" and "path_between G start goal Q"
  shows "\<exists>P st. bfs G start goal = Inr (Some P, st) \<and> path_between G start goal P \<and>
           (\<forall>Q'. path_between G start goal Q' \<longrightarrow> length P - 1 \<le> length Q' - 1)"
proof (cases "start = goal")
  case True
  have "\<forall>Q'. path_between G start goal Q' \<longrightarrow> length [start] - 1 \<le> length Q' - 1" by simp
  then show ?thesis unfolding True[symmetric] bfs_same
    by (simp add: path_between_single)
next
  case False
  from path_between_start_key[OF assms(2) False]
  have keys: "\<forall>e\<in>set [(start, [start])]. fst e \<in> fst ` set G" by simp
  from bfs_loop_no_error[OF assms(1) keys, of goal "{}" "[]"]
  obtain r st where res: "bfs_loop G goal [(start, [start])] {} [] = Inr (r, st)" by blast
  from bfs_loop_optimal[OF bfs_inv_init _ assms(2) res] obtain P where P: "r = Some P" by auto
  have valid: "path_between G start goal P"
    by (rule bfs_loop_valid[OF _ res[unfolded P]]) (simp add: path_between_single)
  have "\<forall>Q'. path_between G start goal Q' \<longrightarrow> length P - 1 \<le> length Q' - 1"
  proof (intro allI impI)
    fix Q' assume "path_between G start goal Q'"
    from bfs_loop_optimal[OF bfs_inv_init _ this res] P
    show "length P - 1 \<le> length Q' - 1" by auto
  qed
  with valid res P show ?thesis by (simp add: bfs_def)
qed

theorem bfs_shortest_witness:
  "graph_closed poland_graph \<and>
   path_between poland_graph ''Glogow'' ''Plock''
     [''Glogow'', ''Leszno'', ''Poznan'', ''Bydgoszcz'', ''Wloclawek'', ''Plock''] \<and>
   (\<exists>P st. bfs poland_graph ''Glogow'' ''Plock'' = Inr (Some P, st) \<and>
      path_between poland_graph ''Glogow'' ''Plock'' P \<and>
      (\<forall>Q'. path_between poland_graph ''Glogow'' ''Plock'' Q' \<longrightarrow> length P - 1 \<le> length Q' - 1))"
  using bfs_shortest[OF poland_closed poland_path] poland_closed poland_path by blast

section \<open>Depth-first search terminates and finds a path\<close>

text \<open>
  C6.  The loop of \<^verbatim>\<open>dfs\<close> is the function \<open>dfs_loop\<close>, whose termination is proved with its
  definition: every iteration either closes one more key of the finite dictionary or only
  shortens the stack.  So \<^verbatim>\<open>dfs\<close> returns on every graph and every pair of nodes, and on a
  graph as the script constructs it, whenever some path leads from \<^verbatim>\<open>start\<close> to \<^verbatim>\<open>goal\<close>, the
  result is a path from \<^verbatim>\<open>start\<close> to \<^verbatim>\<open>goal\<close> whose consecutive nodes are adjacent, not the
  sentinel \<^verbatim>\<open>None\<close>.
\<close>

theorem dfs_finds_path:
  assumes "graph_closed G" and "path_between G start goal Q"
  shows "\<exists>P st. dfs G start goal = Inr (Some P, st) \<and> path_between G start goal P"
proof (cases "start = goal")
  case True
  show ?thesis unfolding True[symmetric] dfs_same by (simp add: path_between_single)
next
  case False
  from path_between_start_key[OF assms(2) False]
  have keys: "\<forall>e\<in>set [(start, [start])]. fst e \<in> fst ` set G" by simp
  from dfs_loop_no_error[OF assms(1) keys, of goal "{}" "[]"]
  obtain r st where res: "dfs_loop G goal [(start, [start])] {} [] = Inr (r, st)" by blast
  have "dfs_loop G goal [(start, [start])] {} [] \<noteq> Inr (None, st)"
    by (rule dfs_loop_complete[OF assms(2)]) simp_all
  with res obtain P where P: "r = Some P" by (cases r) auto
  have valid: "path_between G start goal P"
    by (rule dfs_loop_valid[OF _ res[unfolded P]]) (simp add: path_between_single)
  with res P show ?thesis by (simp add: dfs_def)
qed

theorem dfs_finds_path_witness:
  "graph_closed poland_graph \<and>
   path_between poland_graph ''Glogow'' ''Plock''
     [''Glogow'', ''Leszno'', ''Poznan'', ''Bydgoszcz'', ''Wloclawek'', ''Plock''] \<and>
   (\<exists>P st. dfs poland_graph ''Glogow'' ''Plock'' = Inr (Some P, st) \<and>
      path_between poland_graph ''Glogow'' ''Plock'' P)"
  using dfs_finds_path[OF poland_closed poland_path] poland_closed poland_path by blast

section \<open>No node is expanded twice\<close>

text \<open>
  C9.  In the trace returned by \<^verbatim>\<open>bfs\<close>, \<^verbatim>\<open>dfs\<close> or \<^verbatim>\<open>astar\<close> the \<^verbatim>\<open>'current'\<close> nodes are
  pairwise distinct: a record is traced only when its node is not in the closed set, and
  tracing it puts the node there (the lemmas \<open>bfs_loop_closed\<close>, \<open>dfs_loop_closed\<close> and
  \<open>astar_loop_closed\<close> are the discarding of a record whose node is closed).
\<close>

theorem no_node_expanded_twice:
  "(bfs G start goal = Inr (r, st) \<longrightarrow> distinct (map current st)) \<and>
   (dfs G start goal = Inr (r', st') \<longrightarrow> distinct (map current st')) \<and>
   (astar G h start goal = Inr (r'', c, ast) \<longrightarrow> distinct (map current ast))"
proof (intro conjI impI)
  assume "bfs G start goal = Inr (r, st)"
  then have "bfs_loop G goal [(start, [start])] {} [] = Inr (r, st)" by (simp add: bfs_def)
  from bfs_loop_distinct[OF _ _ this] show "distinct (map current st)" by simp
next
  assume "dfs G start goal = Inr (r', st')"
  then have "dfs_loop G goal [(start, [start])] {} [] = Inr (r', st')" by (simp add: dfs_def)
  from dfs_loop_distinct[OF _ _ this] show "distinct (map current st')" by simp
next
  assume a: "astar G h start goal = Inr (r'', c, ast)"
  then obtain h0 where "h start = Some h0"
    and res: "astar_loop G h goal [(h0, 0, start, [start])] {} [start \<mapsto> 0] [] = Inr (r'', c, ast)"
    by (auto simp: astar_def split: option.splits)
  from astar_loop_distinct[OF _ _ res] show "distinct (map current ast)" by simp
qed

theorem no_node_expanded_twice_witness:
  "bfs detour_graph ''S'' ''G'' =
     Inr (Some [''S'', ''C'', ''G''],
          [\<lparr>current = ''S'', path = [''S''], closed = {''S''}, open_nodes = []\<rparr>,
           \<lparr>current = ''A'', path = [''S'', ''A''], closed = {''A'', ''S''}, open_nodes = [''C'']\<rparr>,
           \<lparr>current = ''C'', path = [''S'', ''C''], closed = {''C'', ''A'', ''S''},
              open_nodes = [''C'']\<rparr>,
           \<lparr>current = ''G'', path = [''S'', ''C'', ''G''], closed = {''G'', ''C'', ''A'', ''S''},
              open_nodes = []\<rparr>]) \<and>
   dfs detour_graph ''S'' ''G'' =
     Inr (Some [''S'', ''A'', ''C'', ''G''],
          [\<lparr>current = ''S'', path = [''S''], closed = {''S''}, open_nodes = []\<rparr>,
           \<lparr>current = ''A'', path = [''S'', ''A''], closed = {''A'', ''S''}, open_nodes = [''C'']\<rparr>,
           \<lparr>current = ''C'', path = [''S'', ''A'', ''C''], closed = {''C'', ''A'', ''S''},
              open_nodes = [''C'']\<rparr>,
           \<lparr>current = ''G'', path = [''S'', ''A'', ''C'', ''G''],
              closed = {''G'', ''C'', ''A'', ''S''}, open_nodes = [''C'']\<rparr>]) \<and>
   astar detour_graph detour_heuristic ''S'' ''G'' =
     Inr (Some [''S'', ''C'', ''G''], 13,
          [\<lparr>current = ''S'', path = [''S''], closed = {''S''}, f_cost = 0, g_cost = 0, h_cost = 0\<rparr>,
           \<lparr>current = ''C'', path = [''S'', ''C''], closed = {''C'', ''S''},
              f_cost = 3, g_cost = 3, h_cost = 0\<rparr>,
           \<lparr>current = ''A'', path = [''S'', ''A''], closed = {''A'', ''C'', ''S''},
              f_cost = 12, g_cost = 1, h_cost = 11\<rparr>,
           \<lparr>current = ''G'', path = [''S'', ''C'', ''G''], closed = {''G'', ''A'', ''C'', ''S''},
              f_cost = 13, g_cost = 13, h_cost = 0\<rparr>]) \<and>
   distinct [''S'', ''A'', ''C'', ''G''] \<and> distinct [''S'', ''C'', ''A'', ''G'']"
proof -
  have b: "bfs detour_graph ''S'' ''G'' =
     Inr (Some [''S'', ''C'', ''G''],
          [\<lparr>current = ''S'', path = [''S''], closed = {''S''}, open_nodes = []\<rparr>,
           \<lparr>current = ''A'', path = [''S'', ''A''], closed = {''A'', ''S''}, open_nodes = [''C'']\<rparr>,
           \<lparr>current = ''C'', path = [''S'', ''C''], closed = {''C'', ''A'', ''S''},
              open_nodes = [''C'']\<rparr>,
           \<lparr>current = ''G'', path = [''S'', ''C'', ''G''], closed = {''G'', ''C'', ''A'', ''S''},
              open_nodes = []\<rparr>])"
    by code_simp
  have d: "dfs detour_graph ''S'' ''G'' =
     Inr (Some [''S'', ''A'', ''C'', ''G''],
          [\<lparr>current = ''S'', path = [''S''], closed = {''S''}, open_nodes = []\<rparr>,
           \<lparr>current = ''A'', path = [''S'', ''A''], closed = {''A'', ''S''}, open_nodes = [''C'']\<rparr>,
           \<lparr>current = ''C'', path = [''S'', ''A'', ''C''], closed = {''C'', ''A'', ''S''},
              open_nodes = [''C'']\<rparr>,
           \<lparr>current = ''G'', path = [''S'', ''A'', ''C'', ''G''],
              closed = {''G'', ''C'', ''A'', ''S''}, open_nodes = [''C'']\<rparr>])"
    by code_simp
  have a: "astar detour_graph detour_heuristic ''S'' ''G'' =
     Inr (Some [''S'', ''C'', ''G''], 13,
          [\<lparr>current = ''S'', path = [''S''], closed = {''S''}, f_cost = 0, g_cost = 0, h_cost = 0\<rparr>,
           \<lparr>current = ''C'', path = [''S'', ''C''], closed = {''C'', ''S''},
              f_cost = 3, g_cost = 3, h_cost = 0\<rparr>,
           \<lparr>current = ''A'', path = [''S'', ''A''], closed = {''A'', ''C'', ''S''},
              f_cost = 12, g_cost = 1, h_cost = 11\<rparr>,
           \<lparr>current = ''G'', path = [''S'', ''C'', ''G''], closed = {''G'', ''A'', ''C'', ''S''},
              f_cost = 13, g_cost = 13, h_cost = 0\<rparr>])"
    by code_simp
  from no_node_expanded_twice[of detour_graph "''S''" "''G''" _ _ _ _ detour_heuristic] b d a
  show ?thesis by simp
qed

section \<open>The path and the cost that A* returns\<close>

text \<open>
  C10.  Whenever \<^verbatim>\<open>astar\<close> returns a path that is not \<^verbatim>\<open>None\<close>, the path begins at \<^verbatim>\<open>start\<close>,
  ends at \<^verbatim>\<open>goal\<close>, its consecutive nodes are adjacent in the graph, and the returned cost is
  the sum of the weights of the edges taken along it.
\<close>

theorem astar_path_valid:
  assumes "astar G h start goal = Inr (Some P, c, st)"
  shows "hd P = start \<and> last P = goal \<and> valid_path G P \<and> (\<exists>ws. route G P ws \<and> sum_list ws = c)"
proof -
  from assms obtain h0 where "h start = Some h0"
    and res: "astar_loop G h goal [(h0, 0, start, [start])] {} [start \<mapsto> 0] [] = Inr (Some P, c, st)"
    by (auto simp: astar_def split: option.splits)
  have "\<forall>e\<in>set [(h0, 0, start, [start])]. item_ok G start e"
    by (simp add: item_ok_def costed_route_single)
  from astar_loop_valid[OF this res] have "costed_route G start goal P c" by simp
  then show ?thesis by (auto simp: costed_route_def dest: route_valid_path)
qed

theorem astar_path_valid_witness:
  "astar detour_graph detour_heuristic ''S'' ''G'' =
     Inr (Some [''S'', ''C'', ''G''], 13,
          [\<lparr>current = ''S'', path = [''S''], closed = {''S''}, f_cost = 0, g_cost = 0, h_cost = 0\<rparr>,
           \<lparr>current = ''C'', path = [''S'', ''C''], closed = {''C'', ''S''},
              f_cost = 3, g_cost = 3, h_cost = 0\<rparr>,
           \<lparr>current = ''A'', path = [''S'', ''A''], closed = {''A'', ''C'', ''S''},
              f_cost = 12, g_cost = 1, h_cost = 11\<rparr>,
           \<lparr>current = ''G'', path = [''S'', ''C'', ''G''], closed = {''G'', ''A'', ''C'', ''S''},
              f_cost = 13, g_cost = 13, h_cost = 0\<rparr>]) \<and>
   valid_path detour_graph [''S'', ''C'', ''G''] \<and>
   (\<exists>ws. route detour_graph [''S'', ''C'', ''G''] ws \<and> sum_list ws = 13)"
proof -
  have a: "astar detour_graph detour_heuristic ''S'' ''G'' =
     Inr (Some [''S'', ''C'', ''G''], 13,
          [\<lparr>current = ''S'', path = [''S''], closed = {''S''}, f_cost = 0, g_cost = 0, h_cost = 0\<rparr>,
           \<lparr>current = ''C'', path = [''S'', ''C''], closed = {''C'', ''S''},
              f_cost = 3, g_cost = 3, h_cost = 0\<rparr>,
           \<lparr>current = ''A'', path = [''S'', ''A''], closed = {''A'', ''C'', ''S''},
              f_cost = 12, g_cost = 1, h_cost = 11\<rparr>,
           \<lparr>current = ''G'', path = [''S'', ''C'', ''G''], closed = {''G'', ''A'', ''C'', ''S''},
              f_cost = 13, g_cost = 13, h_cost = 0\<rparr>])"
    by code_simp
  from astar_path_valid[OF a] a show ?thesis by blast
qed

section \<open>Searches that find no path\<close>

text \<open>
  C5 (counterexample).  Berlin is no city of the map, so no path leads from it to Plock;
  \<^verbatim>\<open>bfs('Berlin', 'Plock')\<close> expands Berlin and raises \<^verbatim>\<open>KeyError\<close> at \<^verbatim>\<open>graph[current]\<close>.
\<close>

theorem no_path_counterexample:
  "adjacent poland_graph ''Berlin'' = [] \<and> bfs poland_graph ''Berlin'' ''Plock'' = Inl KeyError"
  by code_simp

text \<open>
  C5 (as amended).  On a graph as the script constructs it, when \<^verbatim>\<open>start\<close> is a key of the
  graph and no path leads from \<^verbatim>\<open>start\<close> to \<^verbatim>\<open>goal\<close>, \<^verbatim>\<open>bfs\<close> and \<^verbatim>\<open>dfs\<close> return \<^verbatim>\<open>None\<close> as an
  ordinary result, and so does \<^verbatim>\<open>astar\<close>, with cost 0, when every key has a heuristic entry.
\<close>

theorem no_path_returns_none:
  assumes "graph_closed G" and "start \<in> fst ` set G"
    and "\<not> (\<exists>Q. path_between G start goal Q)"
  shows "(\<exists>st. bfs G start goal = Inr (None, st)) \<and>
         (\<exists>st. dfs G start goal = Inr (None, st)) \<and>
         (has_heuristic G h \<longrightarrow> (\<exists>st. astar G h start goal = Inr (None, 0, st)))"
proof (intro conjI impI)
  have keys: "\<forall>e\<in>set [(start, [start])]. fst e \<in> fst ` set G" using assms(2) by simp
  have ok: "\<forall>e\<in>set [(start, [start])]. path_between G start (fst e) (snd e)"
    by (simp add: path_between_single)
  from bfs_loop_no_error[OF assms(1) keys, of goal "{}" "[]"]
  obtain r st where res: "bfs_loop G goal [(start, [start])] {} [] = Inr (r, st)" by blast
  have "r = None"
  proof (cases r)
    case (Some P)
    from bfs_loop_valid[OF ok res[unfolded Some]] assms(3) show ?thesis by blast
  qed simp
  with res show "\<exists>st. bfs G start goal = Inr (None, st)" by (simp add: bfs_def)
  from dfs_loop_no_error[OF assms(1) keys, of goal "{}" "[]"]
  obtain r' st' where res': "dfs_loop G goal [(start, [start])] {} [] = Inr (r', st')" by blast
  have "r' = None"
  proof (cases r')
    case (Some P)
    from dfs_loop_valid[OF ok res'[unfolded Some]] assms(3) show ?thesis by blast
  qed simp
  with res' show "\<exists>st. dfs G start goal = Inr (None, st)" by (simp add: dfs_def)
next
  assume hh: "has_heuristic G h"
  from has_heuristic_key[OF hh assms(2)] obtain h0 where h0: "h start = Some h0" by blast
  let ?H = "[(h0, 0, start, [start])]"
  have keys: "\<forall>e\<in>set ?H. fst (snd (snd e)) \<in> fst ` set G" using assms(2) by simp
  from astar_loop_no_error[OF assms(1) hh keys, of goal "{}" "[start \<mapsto> 0]" "[]"]
  obtain r c st where res: "astar_loop G h goal ?H {} [start \<mapsto> 0] [] = Inr (r, c, st)"
    by (metis prod_cases3)
  have "\<forall>e\<in>set ?H. item_ok G start e" by (simp add: item_ok_def costed_route_single)
  from astar_loop_valid[OF this res]
  have v: "case r of None \<Rightarrow> c = 0 | Some P \<Rightarrow> costed_route G start goal P c" .
  have "r = None \<and> c = 0"
  proof (cases r)
    case None
    with v show ?thesis by simp
  next
    case (Some P)
    with v have "path_between G start goal P" by (simp add: costed_route_path_between)
    with assms(3) show ?thesis by blast
  qed
  with res h0 show "\<exists>st. astar G h start goal = Inr (None, 0, st)" by (simp add: astar_def)
qed

theorem no_path_returns_none_witness:
  "graph_closed [(''A'', [(''B'', 1)]), (''B'', [(''A'', 1)]), (''C'', [(''D'', 2)]), (''D'', [(''C'', 2)])] \<and>
   has_heuristic [(''A'', [(''B'', 1)]), (''B'', [(''A'', 1)]), (''C'', [(''D'', 2)]), (''D'', [(''C'', 2)])]
     (\<lambda>n. Some 0) \<and>
   (\<exists>st. bfs [(''A'', [(''B'', 1)]), (''B'', [(''A'', 1)]), (''C'', [(''D'', 2)]), (''D'', [(''C'', 2)])]
           ''A'' ''D'' = Inr (None, st)) \<and>
   (\<exists>st. dfs [(''A'', [(''B'', 1)]), (''B'', [(''A'', 1)]), (''C'', [(''D'', 2)]), (''D'', [(''C'', 2)])]
           ''A'' ''D'' = Inr (None, st)) \<and>
   (\<exists>st. astar [(''A'', [(''B'', 1)]), (''B'', [(''A'', 1)]), (''C'', [(''D'', 2)]), (''D'', [(''C'', 2)])]
           (\<lambda>n. Some 0) ''A'' ''D'' = Inr (None, 0, st))"
proof -
  let ?G = "[(''A'', [(''B'', 1::int)]), (''B'', [(''A'', 1)]), (''C'', [(''D'', 2)]), (''D'', [(''C'', 2)])]"
  have c: "graph_closed ?G" by code_simp
  have k: "''A'' \<in> fst ` set ?G" by simp
  have h: "has_heuristic ?G (\<lambda>n. Some 0)" by (simp add: has_heuristic_def)
  have "\<forall>u\<in>{''A'', ''B''}. fst ` set (adjacent ?G u) \<subseteq> {''A'', ''B''}"
    by (simp add: adjacent_def)
  then have n: "\<not> (\<exists>Q. path_between ?G ''A'' ''D'' Q)"
    by (intro closed_set_no_path[of _ "{''A'', ''B''}"]) simp_all
  from no_path_returns_none[OF c k n, of "\<lambda>n. Some 0"] c h show ?thesis by blast
qed

section \<open>Missing heuristic entries\<close>

text \<open>
  C8 (counterexample).  \<open>B\<close> is a neighbour of the start \<open>A\<close> and has no heuristic entry:
  \<^verbatim>\<open>astar\<close> raises \<^verbatim>\<open>KeyError\<close> at \<^verbatim>\<open>heuristic[neighbor]\<close> instead of using 0.
\<close>

theorem missing_heuristic_counterexample:
  "astar [(''A'', [(''B'', 1)]), (''B'', [(''A'', 1)])] [''A'' \<mapsto> 0] ''A'' ''B'' = Inl KeyError"
  by code_simp

text \<open>
  C8 (as amended).  The heuristic is read by \<^verbatim>\<open>heuristic[node]\<close>, which raises \<^verbatim>\<open>KeyError\<close> for
  a node without an entry: \<^verbatim>\<open>astar\<close> fails when \<^verbatim>\<open>start\<close> has no entry, and it fails when
  \<^verbatim>\<open>start\<close> is not the goal and some neighbour of \<^verbatim>\<open>start\<close> has none.  On a graph as the script
  constructs it (every stored neighbour is a key), when \<^verbatim>\<open>start\<close> is a key of the graph and
  every key has an entry, \<^verbatim>\<open>astar\<close> completes normally.
\<close>

theorem astar_completes_with_heuristic:
  "(graph_closed G \<and> has_heuristic G h \<and> start \<in> fst ` set G \<longrightarrow>
      (\<exists>r. astar G h start goal = Inr r)) \<and>
   (h1 start1 = None \<longrightarrow> astar G1 h1 start1 goal1 = Inl KeyError) \<and>
   (h2 start2 = Some h0 \<and> start2 \<noteq> goal2 \<and> map_of G2 start2 = Some adj \<and>
    (n, w) \<in> set adj \<and> n \<noteq> start2 \<and> h2 n = None \<longrightarrow>
      astar G2 h2 start2 goal2 = Inl KeyError)"
proof (intro conjI impI)
  assume a: "graph_closed G \<and> has_heuristic G h \<and> start \<in> fst ` set G"
  then obtain h0 where h0: "h start = Some h0" using has_heuristic_key[of G h start] by blast
  have keys: "\<forall>e\<in>set [(h0, 0, start, [start])]. fst (snd (snd e)) \<in> fst ` set G" using a by simp
  from astar_loop_no_error[OF _ _ keys, of h goal "{}" "[start \<mapsto> 0]" "[]"] a h0
  show "\<exists>r. astar G h start goal = Inr r" by (simp add: astar_def)
next
  assume "h1 start1 = None"
  then show "astar G1 h1 start1 goal1 = Inl KeyError" by (simp add: astar_def)
next
  assume "h2 start2 = Some h0 \<and> start2 \<noteq> goal2 \<and> map_of G2 start2 = Some adj \<and>
    (n, w) \<in> set adj \<and> n \<noteq> start2 \<and> h2 n = None"
  then show "astar G2 h2 start2 goal2 = Inl KeyError"
    by (intro astar_neighbour_missing[of h2 start2 h0 goal2 G2 adj n w]) simp_all
qed

theorem astar_completes_with_heuristic_witness:
  "graph_closed poland_graph \<and> has_heuristic poland_graph poland_heuristic \<and>
   ''Glogow'' \<in> fst ` set poland_graph \<and>
   (\<exists>r. astar poland_graph poland_heuristic ''Glogow'' ''Plock'' = Inr r) \<and>
   poland_heuristic ''Berlin'' = None \<and>
   astar poland_graph poland_heuristic ''Berlin'' ''Plock'' = Inl KeyError \<and>
   (poland_heuristic(''Leszno'' := None)) ''Glogow'' = Some 200 \<and>
   map_of poland_graph ''Glogow'' = Some [(''Leszno'', 45), (''Wroclaw'', 140)] \<and>
   (poland_heuristic(''Leszno'' := None)) ''Leszno'' = None \<and>
   astar poland_graph (poland_heuristic(''Leszno'' := None)) ''Glogow'' ''Plock'' = Inl KeyError"
proof -
  have k: "''Glogow'' \<in> fst ` set poland_graph" by code_simp
  have b: "poland_heuristic ''Berlin'' = None" by code_simp
  have g: "(poland_heuristic(''Leszno'' := None)) ''Glogow'' = Some 200" by code_simp
  have m: "map_of poland_graph ''Glogow'' = Some [(''Leszno'', 45), (''Wroclaw'', 140)]"
    by code_simp
  have l: "(poland_heuristic(''Leszno'' := None)) ''Leszno'' = None" by simp
  from astar_completes_with_heuristic[of poland_graph poland_heuristic "''Glogow''" "''Plock''"
      poland_heuristic "''Berlin''" poland_graph "''Plock''"
      "poland_heuristic(''Leszno'' := None)" "''Glogow''" 200 "''Plock''" poland_graph
      "[(''Leszno'', 45), (''Wroclaw'', 140)]" "''Leszno''" 45]
    poland_closed poland_has_heuristic k b g m l
  show ?thesis by simp
qed

section \<open>Optimality of A*\<close>

text \<open>
  C1 (counterexample).  \<open>detour_graph\<close> is built from an undirected edge list with
  non-negative weights, and \<open>detour_heuristic\<close> is admissible for the goal \<open>G\<close>.  \<^verbatim>\<open>astar\<close> closes
  \<open>C\<close> through the direct road (\<open>f = 3\<close>) before it expands \<open>A\<close> (\<open>f = 12\<close>) and never reopens it:
  it returns cost 13, while the run with the all-zero table returns the minimal cost 12.
\<close>

theorem astar_admissible_counterexample:
  "build_graph [''S'', ''A'', ''C'', ''G'']
     [(''S'', ''A'', 1), (''A'', ''C'', 1), (''S'', ''C'', 3), (''C'', ''G'', 10)] = Inr detour_graph \<and>
   nonneg_costs detour_graph \<and>
   admissible detour_graph detour_heuristic ''G'' \<and>
   astar detour_graph detour_heuristic ''S'' ''G'' =
     Inr (Some [''S'', ''C'', ''G''], 13,
          [\<lparr>current = ''S'', path = [''S''], closed = {''S''}, f_cost = 0, g_cost = 0, h_cost = 0\<rparr>,
           \<lparr>current = ''C'', path = [''S'', ''C''], closed = {''C'', ''S''},
              f_cost = 3, g_cost = 3, h_cost = 0\<rparr>,
           \<lparr>current = ''A'', path = [''S'', ''A''], closed = {''A'', ''C'', ''S''},
              f_cost = 12, g_cost = 1, h_cost = 11\<rparr>,
           \<lparr>current = ''G'', path = [''S'', ''C'', ''G''], closed = {''G'', ''A'', ''C'', ''S''},
              f_cost = 13, g_cost = 13, h_cost = 0\<rparr>]) \<and>
   astar detour_graph (zero_table detour_heuristic) ''S'' ''G'' =
     Inr (Some [''S'', ''A'', ''C'', ''G''], 12,
          [\<lparr>current = ''S'', path = [''S''], closed = {''S''}, f_cost = 0, g_cost = 0, h_cost = 0\<rparr>,
           \<lparr>current = ''A'', path = [''S'', ''A''], closed = {''A'', ''S''},
              f_cost = 1, g_cost = 1, h_cost = 0\<rparr>,
           \<lparr>current = ''C'', path = [''S'', ''A'', ''C''], closed = {''C'', ''A'', ''S''},
              f_cost = 2, g_cost = 2, h_cost = 0\<rparr>,
           \<lparr>current = ''G'', path = [''S'', ''A'', ''C'', ''G''], closed = {''G'', ''C'', ''A'', ''S''},
              f_cost = 12, g_cost = 12, h_cost = 0\<rparr>])"
proof (intro conjI)
  show "build_graph [''S'', ''A'', ''C'', ''G'']
     [(''S'', ''A'', 1), (''A'', ''C'', 1), (''S'', ''C'', 3), (''C'', ''G'', 10)] = Inr detour_graph"
    by code_simp
  show "nonneg_costs detour_graph" by code_simp
  show "admissible detour_graph detour_heuristic ''G''" by (rule detour_admissible)
  show "astar detour_graph detour_heuristic ''S'' ''G'' =
     Inr (Some [''S'', ''C'', ''G''], 13,
          [\<lparr>current = ''S'', path = [''S''], closed = {''S''}, f_cost = 0, g_cost = 0, h_cost = 0\<rparr>,
           \<lparr>current = ''C'', path = [''S'', ''C''], closed = {''C'', ''S''},
              f_cost = 3, g_cost = 3, h_cost = 0\<rparr>,
           \<lparr>current = ''A'', path = [''S'', ''A''], closed = {''A'', ''C'', ''S''},
              f_cost = 12, g_cost = 1, h_cost = 11\<rparr>,
           \<lparr>current = ''G'', path = [''S'', ''C'', ''G''], closed = {''G'', ''A'', ''C'', ''S''},
              f_cost = 13, g_cost = 13, h_cost = 0\<rparr>])"
    by code_simp
  show "astar detour_graph (zero_table detour_heuristic) ''S'' ''G'' =
     Inr (Some [''S'', ''A'', ''C'', ''G''], 12,
          [\<lparr>current = ''S'', path = [''S''], closed = {''S''}, f_cost = 0, g_cost = 0, h_cost = 0\<rparr>,
           \<lparr>current = ''A'', path = [''S'', ''A''], closed = {''A'', ''S''},
              f_cost = 1, g_cost = 1, h_cost = 0\<rparr>,
           \<lparr>current = ''C'', path = [''S'', ''A'', ''C''], closed = {''C'', ''A'', ''S''},
              f_cost = 2, g_cost = 2, h_cost = 0\<rparr>,
           \<lparr>current = ''G'', path = [''S'', ''A'', ''C'', ''G''], closed = {''G'', ''C'', ''A'', ''S''},
              f_cost = 12, g_cost = 12, h_cost = 0\<rparr>])"
    by code_simp
qed

text \<open>
  C1 (as amended).  On a graph as the script constructs it, with non-negative edge costs
  and a heuristic table that has an entry for every node and is consistent (its value drops
  along every edge by no more than the weight of the edge), whenever some path leads from
  the node \<^verbatim>\<open>start\<close> to \<^verbatim>\<open>goal\<close>, \<^verbatim>\<open>astar\<close> returns a path from \<^verbatim>\<open>start\<close> to \<^verbatim>\<open>goal\<close> whose cost is
  the sum of its edge weights and is at most the cost of every route from \<^verbatim>\<open>start\<close> to \<^verbatim>\<open>goal\<close>;
  the run with the all-zero table returns the same cost.
\<close>

theorem astar_consistent_optimal:
  assumes "graph_closed G" and "nonneg_costs G" and "has_heuristic G h" and "consistent G h"
    and "start \<in> fst ` set G" and "path_between G start goal Q"
  shows "\<exists>P c st P0 st0.
           astar G h start goal = Inr (Some P, c, st) \<and>
           hd P = start \<and> last P = goal \<and> (\<exists>ws. route G P ws \<and> sum_list ws = c) \<and>
           (\<forall>Q' ws'. route G Q' ws' \<and> hd Q' = start \<and> last Q' = goal \<longrightarrow> c \<le> sum_list ws') \<and>
           astar G (zero_table h) start goal = Inr (Some P0, c, st0)"
proof -
  from astar_optimal_run[OF assms(1,3,4,5,6)] obtain P c st
    where a: "astar G h start goal = Inr (Some P, c, st)" "costed_route G start goal P c"
      "\<forall>Q' ws'. route G Q' ws' \<and> hd Q' = start \<and> last Q' = goal \<longrightarrow> c \<le> sum_list ws'"
    by blast
  from astar_optimal_run[OF assms(1) zero_table_has_heuristic[OF assms(3)]
      zero_table_consistent[OF assms(2)] assms(5,6)] obtain P0 c0 st0
    where z: "astar G (zero_table h) start goal = Inr (Some P0, c0, st0)"
      "costed_route G start goal P0 c0"
      "\<forall>Q' ws'. route G Q' ws' \<and> hd Q' = start \<and> last Q' = goal \<longrightarrow> c0 \<le> sum_list ws'"
    by blast
  from a(2) z(3) have "c0 \<le> c" unfolding costed_route_def by blast
  moreover from z(2) a(3) have "c \<le> c0" unfolding costed_route_def by blast
  ultimately have "c0 = c" by simp
  with a z(1) show ?thesis unfolding costed_route_def by blast
qed

theorem astar_consistent_optimal_witness:
  "graph_closed poland_graph \<and> nonneg_costs poland_graph \<and>
   has_heuristic poland_graph poland_heuristic \<and> consistent poland_graph poland_heuristic \<and>
   ''Glogow'' \<in> fst ` set poland_graph \<and>
   path_between poland_graph ''Glogow'' ''Plock''
     [''Glogow'', ''Leszno'', ''Poznan'', ''Bydgoszcz'', ''Wloclawek'', ''Plock''] \<and>
   (\<exists>P c st P0 st0.
      astar poland_graph poland_heuristic ''Glogow'' ''Plock'' = Inr (Some P, c, st) \<and>
      hd P = ''Glogow'' \<and> last P = ''Plock'' \<and> (\<exists>ws. route poland_graph P ws \<and> sum_list ws = c) \<and>
      (\<forall>Q' ws'. route poland_graph Q' ws' \<and> hd Q' = ''Glogow'' \<and> last Q' = ''Plock''
         \<longrightarrow> c \<le> sum_list ws') \<and>
      astar poland_graph (zero_table poland_heuristic) ''Glogow'' ''Plock'' = Inr (Some P0, c, st0))"
proof -
  have k: "''Glogow'' \<in> fst ` set poland_graph" by code_simp
  from astar_consistent_optimal[OF poland_closed poland_nonneg poland_has_heuristic
      poland_consistent k poland_path]
    poland_closed poland_nonneg poland_has_heuristic poland_consistent k poland_path
  show ?thesis by blast
qed

section \<open>The interval solver computes the reference recurrence\<close>

text \<open>
  C3.  For every non-empty sequence of positive integers \<^verbatim>\<open>strategic_tile_shatter\<close> returns
  the value \<open>score 0 (n - 1)\<close> of the reference recurrence over the array padded with 1 at
  both ends, of length \<open>n = m + 2\<close>; on \<^verbatim>\<open>[3, 1, 5, 8]\<close> it returns 167 and on \<^verbatim>\<open>[5]\<close> it returns 5.
\<close>

theorem tile_shatter_is_score:
  "(tile_multipliers \<noteq> [] \<and> (\<forall>x\<in>set tile_multipliers. 0 < x) \<longrightarrow>
      strategic_tile_shatter tile_multipliers =
        Inr (score ([1] @ tile_multipliers @ [1]) 0 (length ([1] @ tile_multipliers @ [1]) - 1))) \<and>
   strategic_tile_shatter [3, 1, 5, 8] = Inr 167 \<and>
   strategic_tile_shatter [5] = Inr 5"
proof (intro conjI impI)
  assume "tile_multipliers \<noteq> [] \<and> (\<forall>x\<in>set tile_multipliers. 0 < x)"
  then have "\<forall>x\<in>set tile_multipliers. 0 \<le> x" by auto
  from tile_shatter_score[OF this]
  show "strategic_tile_shatter tile_multipliers =
        Inr (score ([1] @ tile_multipliers @ [1]) 0 (length ([1] @ tile_multipliers @ [1]) - 1))"
    by simp
next
  show "strategic_tile_shatter [3, 1, 5, 8] = Inr 167" by code_simp
next
  show "strategic_tile_shatter [5] = Inr 5" by code_simp
qed

theorem tile_shatter_is_score_witness:
  "[3, 1, 5, 8] \<noteq> ([] :: int list) \<and>
   (0::int) < 3 \<and> (0::int) < 1 \<and> (0::int) < 5 \<and> (0::int) < 8 \<and>
   strategic_tile_shatter [3, 1, 5, 8] = Inr (score [1, 3, 1, 5, 8, 1] 0 5) \<and>
   score [1, 3, 1, 5, 8, 1] 0 5 = 167"
proof -
  have s: "score [1, 3, 1, 5, 8, 1] 0 5 = 167" by code_simp
  have l: "length [1, 3, 1, 5, 8, 1::int] - 1 = 5" by simp
  have a: "[1] @ [3, 1, 5, 8] @ [1] = [1, 3, 1, 5, 8, 1::int]" by simp
  have h: "[3, 1, 5, 8] \<noteq> ([] :: int list) \<and> (\<forall>x\<in>set [3, 1, 5, 8]. (0::int) < x)" by simp
  with tile_shatter_is_score[of "[3, 1, 5, 8]"]
  have "strategic_tile_shatter [3, 1, 5, 8] =
        Inr (score ([1] @ [3, 1, 5, 8] @ [1]) 0 (length ([1] @ [3, 1, 5, 8] @ [1::int]) - 1))"
    by blast
  then have "strategic_tile_shatter [3, 1, 5, 8] = Inr (score [1, 3, 1, 5, 8, 1] 0 5)"
    by (simp only: a l)
  with s show ?thesis by simp
qed

end
